theory Spec2Isabelle
  imports Main "HOL-Library.Word"
begin

unbundle bit_operations_syntax

section \<open>Machine types\<close>

text \<open>
  \<open>unsigned int\<close> is a 32-bit word, a \<open>char\<close> of a stream is an 8-bit word.
  \<open>std::size_t\<close> values (vector sizes, byte counts) are natural numbers: the code never
  wraps them. The template parameter \<open>CHUNKSIZE\<close> is passed as the natural number \<open>C\<close>;
  where the source computes with it in \<open>unsigned int\<close> the model converts it with
  \<open>of_nat\<close>, so the wrap-around of the source is the wrap-around of the model.
\<close>

type_synonym byte = "8 word"
type_synonym u32 = "32 word"

text \<open>
  What the C++ leaves undefined, or aborts on, is a value of the model:
  \<^item> \<open>Out_of_bounds\<close>: an access outside an allocated chunk or array;
  \<^item> \<open>Assert_failed\<close>: an \<open>assert\<close> of the source that does not hold;
  \<^item> \<open>Short_header\<close>: \<open>load\<close> uses the three header words although the stream held
    fewer than twelve bytes, so that the local array \<open>nbs\<close> is partly indeterminate.
\<close>

datatype fault = Out_of_bounds | Assert_failed | Short_header

section \<open>Object representation of \<open>unsigned int\<close>\<close>

text \<open>
  \<open>fs.write(reinterpret_cast<const char*>(nbs), ...)\<close> writes the bytes of the words as
  they lie in memory. The model fixes the byte order of the usual targets (least
  significant byte first).
\<close>

definition word_bytes :: "u32 \<Rightarrow> byte list" where
  "word_bytes w = [ucast w, ucast (drop_bit 8 w), ucast (drop_bit 16 w), ucast (drop_bit 24 w)]"

fun bytes_word :: "byte list \<Rightarrow> u32" where
  "bytes_word [b0, b1, b2, b3] =
     ucast b0 OR push_bit 8 (ucast b1) OR push_bit 16 (ucast b2) OR push_bit 24 (ucast b3)"
| "bytes_word _ = 0"

text \<open>Cutting a byte sequence into objects of \<open>n\<close> bytes each.\<close>

fun chop :: "nat \<Rightarrow> 'a list \<Rightarrow> 'a list list" where
  "chop 0 xs = []"
| "chop n [] = []"
| "chop n xs = take n xs # chop n (drop n xs)"

section \<open>\<open>ChunkArray<CHUNKSIZE, T>\<close>\<close>

text \<open>
  The element type \<open>T\<close> of a column: its \<open>sizeof\<close>, its value-initialised object \<open>T()\<close>,
  and its object representation (what \<open>reinterpret_cast<char*>\<close> reads and writes).
\<close>

record 'a elem_type =
  size_of :: nat
  default_value :: 'a
  object_bytes :: "'a \<Rightarrow> byte list"
  object_value :: "byte list \<Rightarrow> 'a"

text \<open>\<open>tableData_\<close>: the vector of chunks, each chunk an array \<open>T[CHUNKSIZE]\<close>.\<close>

type_synonym 'a chunk_array = "'a list list"

definition addChunk :: "nat \<Rightarrow> 'a elem_type \<Rightarrow> 'a chunk_array \<Rightarrow> 'a chunk_array" where
  "addChunk C T tableData = tableData @ [replicate C (default_value T)]"

text \<open>The loop \<open>for (i = tableData_.size(); i < nbc; ++i) addChunk();\<close>\<close>

function setNbChunks_grow ::
  "nat \<Rightarrow> 'a elem_type \<Rightarrow> nat \<Rightarrow> nat \<Rightarrow> 'a chunk_array \<Rightarrow> 'a chunk_array" where
  "setNbChunks_grow C T i nbc tableData =
     (if i < nbc then setNbChunks_grow C T (Suc i) nbc (addChunk C T tableData)
      else tableData)"
  by pat_completeness auto
termination
  by (relation "measure (\<lambda>(C, T, i, nbc, tableData). nbc - i)") auto

declare setNbChunks_grow.simps [simp del]

text \<open>
  \<open>setNbChunks\<close>: the comparison is made in \<open>std::size_t\<close>; the shrinking branch deletes
  the trailing chunks and resizes the vector.
\<close>

definition setNbChunks :: "nat \<Rightarrow> 'a elem_type \<Rightarrow> u32 \<Rightarrow> 'a chunk_array \<Rightarrow> 'a chunk_array" where
  "setNbChunks C T nbc tableData =
     (if unat nbc \<ge> length tableData
      then setNbChunks_grow C T (length tableData) (unat nbc) tableData
      else take (unat nbc) tableData)"

definition getNbChunks :: "'a chunk_array \<Rightarrow> u32" where
  "getNbChunks tableData = of_nat (length tableData)"

definition capacity :: "nat \<Rightarrow> 'a chunk_array \<Rightarrow> u32" where
  "capacity C tableData = of_nat (length tableData) * of_nat C"

text \<open>\<open>operator[]\<close>: \<open>tableData_[i / CHUNKSIZE][i % CHUNKSIZE]\<close>.\<close>

definition subscript :: "nat \<Rightarrow> 'a chunk_array \<Rightarrow> u32 \<Rightarrow> fault + 'a" where
  "subscript C tableData i =
     (let jj = unat i div C; j = unat i mod C
      in if jj < length tableData \<and> j < length (tableData ! jj)
         then Inr (tableData ! jj ! j) else Inl Out_of_bounds)"

section \<open>\<open>ChunkArray<CHUNKSIZE, bool>\<close>: one bit per element\<close>

text \<open>\<open>tableData_\<close>: the vector of chunks, each chunk an array \<open>unsigned int[CHUNKSIZE/32]\<close>.\<close>

type_synonym bool_chunk_array = "u32 list list"

definition addChunk_bool :: "nat \<Rightarrow> bool_chunk_array \<Rightarrow> bool_chunk_array" where
  "addChunk_bool C tableData = tableData @ [replicate (C div 32) 0]"

function setNbChunks_bool_grow ::
  "nat \<Rightarrow> nat \<Rightarrow> nat \<Rightarrow> bool_chunk_array \<Rightarrow> bool_chunk_array" where
  "setNbChunks_bool_grow C i nbc tableData =
     (if i < nbc then setNbChunks_bool_grow C (Suc i) nbc (addChunk_bool C tableData)
      else tableData)"
  by pat_completeness auto
termination
  by (relation "measure (\<lambda>(C, i, nbc, tableData). nbc - i)") auto

declare setNbChunks_bool_grow.simps [simp del]

definition setNbChunks_bool :: "nat \<Rightarrow> u32 \<Rightarrow> bool_chunk_array \<Rightarrow> bool_chunk_array" where
  "setNbChunks_bool C nbc tableData =
     (if unat nbc \<ge> length tableData
      then setNbChunks_bool_grow C (length tableData) (unat nbc) tableData
      else take (unat nbc) tableData)"

definition getNbChunks_bool :: "bool_chunk_array \<Rightarrow> u32" where
  "getNbChunks_bool tableData = of_nat (length tableData)"

text \<open>\<open>static_cast<unsigned int>(tableData_.size())*CHUNKSIZE/32u\<close>\<close>

definition capacity_bool :: "nat \<Rightarrow> bool_chunk_array \<Rightarrow> u32" where
  "capacity_bool C tableData = (of_nat (length tableData) * of_nat C) div 32"

definition setFalse :: "nat \<Rightarrow> u32 \<Rightarrow> bool_chunk_array \<Rightarrow> fault + bool_chunk_array" where
  "setFalse C i tableData =
     (let jj = unat i div C; j = unat i mod C; x = j div 32; y = j mod 32;
          mask = push_bit y (1 :: u32)
      in if jj < length tableData \<and> x < length (tableData ! jj)
         then Inr (tableData[jj := (tableData ! jj)[x := (tableData ! jj ! x) AND NOT mask]])
         else Inl Out_of_bounds)"

definition setTrue :: "nat \<Rightarrow> u32 \<Rightarrow> bool_chunk_array \<Rightarrow> fault + bool_chunk_array" where
  "setTrue C i tableData =
     (let jj = unat i div C; j = unat i mod C; x = j div 32; y = j mod 32;
          mask = push_bit y (1 :: u32)
      in if jj < length tableData \<and> x < length (tableData ! jj)
         then Inr (tableData[jj := (tableData ! jj)[x := (tableData ! jj ! x) OR mask]])
         else Inl Out_of_bounds)"

definition setVal_bool :: "nat \<Rightarrow> u32 \<Rightarrow> bool \<Rightarrow> bool_chunk_array \<Rightarrow> fault + bool_chunk_array" where
  "setVal_bool C i b tableData =
     (let jj = unat i div C; j = unat i mod C; x = j div 32; y = j mod 32;
          mask = push_bit y (1 :: u32)
      in if jj < length tableData \<and> x < length (tableData ! jj)
         then (if b
               then Inr (tableData[jj := (tableData ! jj)[x := (tableData ! jj ! x) OR mask]])
               else Inr (tableData[jj := (tableData ! jj)[x := (tableData ! jj ! x) AND NOT mask]]))
         else Inl Out_of_bounds)"

definition setFalseDirty :: "nat \<Rightarrow> u32 \<Rightarrow> bool_chunk_array \<Rightarrow> fault + bool_chunk_array" where
  "setFalseDirty C i tableData =
     (let jj = unat i div C; j = (unat i mod C) div 32
      in if jj < length tableData \<and> j < length (tableData ! jj)
         then Inr (tableData[jj := (tableData ! jj)[j := 0]])
         else Inl Out_of_bounds)"

definition subscript_bool :: "nat \<Rightarrow> bool_chunk_array \<Rightarrow> u32 \<Rightarrow> fault + bool" where
  "subscript_bool C tableData i =
     (let jj = unat i div C; j = unat i mod C; x = j div 32; y = j mod 32;
          mask = push_bit y (1 :: u32)
      in if jj < length tableData \<and> x < length (tableData ! jj)
         then Inr ((tableData ! jj ! x) AND mask \<noteq> 0)
         else Inl Out_of_bounds)"

text \<open>
  A column is well formed when each of its chunks has the allocated length:
  \<open>CHUNKSIZE\<close> elements, or \<open>CHUNKSIZE/32\<close> words for the bit-packed column.
\<close>

definition wf_chunks :: "nat \<Rightarrow> 'a chunk_array \<Rightarrow> bool" where
  "wf_chunks C tableData = list_all (\<lambda>c. length c = C) tableData"

definition wf_chunks_bool :: "nat \<Rightarrow> bool_chunk_array \<Rightarrow> bool" where
  "wf_chunks_bool C tableData = list_all (\<lambda>c. length c = C div 32) tableData"

section \<open>Persistence of a column\<close>

text \<open>
  A stream is its sequence of bytes. \<open>fs.write(p, n)\<close> appends the \<open>n\<close> bytes that lie
  at \<open>p\<close>; reading them past the end of the chunk is undefined. \<open>fs.read(p, n)\<close> takes
  up to \<open>n\<close> bytes off the stream (fewer when it ends before) and stores them at \<open>p\<close>;
  storing them past the end of the chunk is undefined.
\<close>

definition chunk_bytes :: "'a elem_type \<Rightarrow> 'a list \<Rightarrow> byte list" where
  "chunk_bytes T c = concat (map (object_bytes T) c)"

definition bytes_chunk :: "'a elem_type \<Rightarrow> byte list \<Rightarrow> 'a list" where
  "bytes_chunk T bs = map (object_value T) (chop (size_of T) bs)"

definition read_mem :: "byte list \<Rightarrow> nat \<Rightarrow> fault + byte list" where
  "read_mem mem n = (if n \<le> length mem then Inr (take n mem) else Inl Out_of_bounds)"

definition write_mem :: "byte list \<Rightarrow> byte list \<Rightarrow> fault + byte list" where
  "write_mem mem bs =
     (if length bs \<le> length mem then Inr (bs @ drop (length bs) mem) else Inl Out_of_bounds)"

text \<open>The loop of \<open>save\<close> over the chunks except the last; \<open>n\<close> is the byte count of a write.\<close>

function save_chunks ::
  "'a elem_type \<Rightarrow> nat \<Rightarrow> 'a chunk_array \<Rightarrow> nat \<Rightarrow> nat \<Rightarrow> byte list \<Rightarrow> fault + byte list" where
  "save_chunks T n tableData i nbca fs =
     (if i < nbca then
        (if i < length tableData then
           (case read_mem (chunk_bytes T (tableData ! i)) n of
              Inl e \<Rightarrow> Inl e
            | Inr bs \<Rightarrow> save_chunks T n tableData (Suc i) nbca (fs @ bs))
         else Inl Out_of_bounds)
      else Inr fs)"
  by pat_completeness auto
termination
  by (relation "measure (\<lambda>(T, n, tableData, i, nbca, fs). nbca - i)") auto

declare save_chunks.simps [simp del]

text \<open>\<open>ChunkArray<CHUNKSIZE, T>::save\<close>; the result is what was written to the stream.\<close>

definition save :: "nat \<Rightarrow> 'a elem_type \<Rightarrow> 'a chunk_array \<Rightarrow> u32 \<Rightarrow> fault + byte list" where
  "save C T tableData nbLines =
     (let nbs0 = (of_nat (length tableData) :: u32);
          nbs1 = nbLines;
          nbs2 = (of_nat (C * size_of T) :: u32)
      in if \<not> unat nbLines div C \<le> length tableData then Inl Assert_failed
         else
           let fs = word_bytes nbs0 @ word_bytes nbs1 @ word_bytes nbs2
           in if nbs0 = 0 then Inr fs
              else
                let nbca = nbs0 - 1
                in (case save_chunks T (C * size_of T) tableData 0 (unat nbca) fs of
                      Inl e \<Rightarrow> Inl e
                    | Inr fs' \<Rightarrow>
                        let nbl = nbLines - nbca * of_nat C
                        in if unat nbca < length tableData then
                             (case read_mem (chunk_bytes T (tableData ! unat nbca))
                                     (unat nbl * size_of T) of
                                Inl e \<Rightarrow> Inl e
                              | Inr bs \<Rightarrow> Inr (fs' @ bs))
                           else Inl Out_of_bounds))"

text \<open>The loop of \<open>load\<close> over the chunks except the last.\<close>

function load_chunks ::
  "'a elem_type \<Rightarrow> nat \<Rightarrow> nat \<Rightarrow> nat \<Rightarrow> 'a chunk_array \<Rightarrow> byte list
     \<Rightarrow> fault + ('a chunk_array \<times> byte list)" where
  "load_chunks T n i nbca tableData fs =
     (if i < nbca then
        (if i < length tableData then
           (case write_mem (chunk_bytes T (tableData ! i)) (take n fs) of
              Inl e \<Rightarrow> Inl e
            | Inr mem \<Rightarrow>
                load_chunks T n (Suc i) nbca (tableData[i := bytes_chunk T mem]) (drop n fs))
         else Inl Out_of_bounds)
      else Inr (tableData, fs))"
  by pat_completeness auto
termination
  by (relation "measure (\<lambda>(T, n, i, nbca, tableData, fs). nbca - i)") auto

declare load_chunks.simps [simp del]

text \<open>
  \<open>ChunkArray<CHUNKSIZE, T>::load\<close>; the result is the returned flag, the column and the
  rest of the stream. The test of the chunk byte size compares an \<open>unsigned int\<close> with a
  \<open>std::size_t\<close>, hence in \<open>std::size_t\<close>.
\<close>

definition load ::
  "nat \<Rightarrow> 'a elem_type \<Rightarrow> 'a chunk_array \<Rightarrow> byte list
     \<Rightarrow> fault + (bool \<times> 'a chunk_array \<times> byte list)" where
  "load C T tableData fs =
     (if length fs < 12 then Inl Short_header
      else
        let nbs0 = bytes_word (take 4 fs);
            nbs1 = bytes_word (take 4 (drop 4 fs));
            nbs2 = bytes_word (take 4 (drop 8 fs));
            fs1 = drop 12 fs
        in if unat nbs2 \<noteq> C * size_of T then Inr (False, tableData, fs1)
           else
             let tableData1 = setNbChunks C T nbs0 tableData
             in if nbs0 = 0 then Inr (True, tableData1, fs1)
                else
                  let nbca = nbs0 - 1
                  in (case load_chunks T (C * size_of T) 0 (unat nbca) tableData1 fs1 of
                        Inl e \<Rightarrow> Inl e
                      | Inr (tableData2, fs2) \<Rightarrow>
                          let nbl = nbs1 - of_nat C * nbca
                          in if unat nbca < length tableData2 then
                               (case write_mem (chunk_bytes T (tableData2 ! unat nbca))
                                       (take (unat nbl * size_of T) fs2) of
                                  Inl e \<Rightarrow> Inl e
                                | Inr mem \<Rightarrow>
                                    Inr (True, tableData2[unat nbca := bytes_chunk T mem],
                                         drop (unat nbl * size_of T) fs2))
                             else Inl Out_of_bounds))"

text \<open>The words of a bit-packed chunk are \<open>unsigned int\<close> objects.\<close>

definition u32_type :: "u32 elem_type" where
  "u32_type = \<lparr>size_of = 4, default_value = 0, object_bytes = word_bytes,
               object_value = bytes_word\<rparr>"

text \<open>\<open>ChunkArray<CHUNKSIZE, bool>::save\<close>\<close>

definition save_bool :: "nat \<Rightarrow> bool_chunk_array \<Rightarrow> u32 \<Rightarrow> fault + byte list" where
  "save_bool C tableData nbLines0 =
     (let nbLines = (if nbLines0 mod 32 \<noteq> 0 then (nbLines0 div 32 + 1) * 32 else nbLines0);
          nbs0 = (of_nat (length tableData) :: u32);
          nbs1 = nbLines;
          nbs2 = (of_nat C div 8 :: u32)
      in if \<not> unat nbLines div C \<le> length tableData then Inl Assert_failed
         else
           let fs = word_bytes nbs0 @ word_bytes nbs1 @ word_bytes nbs2
           in if nbs0 = 0 then Inr fs
              else
                let nbca = nbs0 - 1
                in (case save_chunks u32_type (C div 8) tableData 0 (unat nbca) fs of
                      Inl e \<Rightarrow> Inl e
                    | Inr fs' \<Rightarrow>
                        let nbl = nbLines - nbca * of_nat C div 8
                        in if unat nbca < length tableData then
                             (case read_mem (chunk_bytes u32_type (tableData ! unat nbca))
                                     (unat (nbl div 8)) of
                                Inl e \<Rightarrow> Inl e
                              | Inr bs \<Rightarrow> Inr (fs' @ bs))
                           else Inl Out_of_bounds))"

text \<open>\<open>ChunkArray<CHUNKSIZE, bool>::load\<close>\<close>

definition load_bool ::
  "nat \<Rightarrow> bool_chunk_array \<Rightarrow> byte list \<Rightarrow> fault + (bool \<times> bool_chunk_array \<times> byte list)" where
  "load_bool C tableData fs =
     (if length fs < 12 then Inl Short_header
      else
        let nbs0 = bytes_word (take 4 fs);
            nbs1 = bytes_word (take 4 (drop 4 fs));
            nbs2 = bytes_word (take 4 (drop 8 fs));
            fs1 = drop 12 fs
        in if nbs2 \<noteq> of_nat C div 8 then Inr (False, tableData, fs1)
           else
             let tableData1 = setNbChunks_bool C nbs0 tableData
             in if nbs0 = 0 then Inr (True, tableData1, fs1)
                else
                  let nbca = nbs0 - 1
                  in (case load_chunks u32_type (C div 8) 0 (unat nbca) tableData1 fs1 of
                        Inl e \<Rightarrow> Inl e
                      | Inr (tableData2, fs2) \<Rightarrow>
                          let nbl = nbs1 - nbca * of_nat C div 8
                          in if unat nbca < length tableData2 then
                               (case write_mem (chunk_bytes u32_type (tableData2 ! unat nbca))
                                       (take (unat (nbl div 8)) fs2) of
                                  Inl e \<Rightarrow> Inl e
                                | Inr mem \<Rightarrow>
                                    Inr (True, tableData2[unat nbca := bytes_chunk u32_type mem],
                                         drop (unat (nbl div 8)) fs2))
                             else Inl Out_of_bounds))"

section \<open>Binary OFF export\<close>

text \<open>
  What \<open>export_off_bin\<close> uses of the map: \<open>nb_cells<Vertex::ORBIT>()\<close>, and the traversal
  \<open>foreach_cell\<close> over the faces with \<open>foreach_incident_vertex\<close> inside, given as the list
  of the faces, each face the list of the embedding indices of its vertices.
\<close>

record surface_map =
  nb_cells_vertex :: u32
  face_vertices :: "u32 list list"

definition UINT_MAX :: u32 where
  "UINT_MAX = 0xFFFFFFFF"

definition ascii_bytes :: "string \<Rightarrow> byte list" where
  "ascii_bytes s = map (\<lambda>c. of_nat (of_char c)) s"

text \<open>
  First pass, at one vertex: a vertex not yet numbered gets the next index and its three
  coordinates are written. \<open>position v\<close> is the bit pattern of the three \<open>float\<close> values
  \<open>float(P[0]), float(P[1]), float(P[2])\<close>; \<open>swap\<close> stands for
  \<open>swap_endianness_native_big\<close> of \<open>core/utils/endian.h\<close>. The buffers of the source
  are flushed in order, so the stream receives the concatenation.
\<close>

definition first_pass_vertex ::
  "(u32 \<Rightarrow> u32) \<Rightarrow> (u32 \<Rightarrow> u32 \<times> u32 \<times> u32) \<Rightarrow> (u32 \<Rightarrow> u32) \<times> u32 \<times> byte list \<Rightarrow> u32
     \<Rightarrow> (u32 \<Rightarrow> u32) \<times> u32 \<times> byte list" where
  "first_pass_vertex swap position st v =
     (case st of (ids, count, out) \<Rightarrow>
        if ids v = UINT_MAX
        then (case position v of (p0, p1, p2) \<Rightarrow>
                (ids(v := count), count + 1,
                 out @ word_bytes (swap p0) @ word_bytes (swap p1) @ word_bytes (swap p2)))
        else (ids, count, out))"

definition first_pass ::
  "(u32 \<Rightarrow> u32) \<Rightarrow> (u32 \<Rightarrow> u32 \<times> u32 \<times> u32) \<Rightarrow> u32 list list
     \<Rightarrow> (u32 \<Rightarrow> u32) \<times> u32 \<times> byte list" where
  "first_pass swap position fs =
     foldl (\<lambda>st f. foldl (first_pass_vertex swap position) st f) (\<lambda>v. UINT_MAX, 0, []) fs"

text \<open>Second pass, at one face: the valence, then the indices of the vertices.\<close>

definition second_pass_face :: "(u32 \<Rightarrow> u32) \<Rightarrow> (u32 \<Rightarrow> u32) \<Rightarrow> byte list \<Rightarrow> u32 list \<Rightarrow> byte list" where
  "second_pass_face swap ids out f =
     out @ word_bytes (swap (of_nat (length f))) @ concat (map (\<lambda>v. word_bytes (swap (ids v))) f)"

text \<open>
  \<open>export_off_bin\<close>: \<open>good\<close> is \<open>fp.good()\<close> after the file was opened; the result is the
  returned flag and the bytes of the file.
\<close>

definition export_off_bin ::
  "(u32 \<Rightarrow> u32) \<Rightarrow> (u32 \<Rightarrow> u32 \<times> u32 \<times> u32) \<Rightarrow> surface_map \<Rightarrow> bool \<Rightarrow> bool \<times> byte list" where
  "export_off_bin swap position m good =
     (if \<not> good then (False, [])
      else
        let nb_cells = [swap (nb_cells_vertex m), swap (nb_cells_vertex m), 0];
            fp = ascii_bytes ''OFF BINARY'' @ [10] @ concat (map word_bytes nb_cells)
        in (case first_pass swap position (face_vertices m) of (ids, count, buffer_pos) \<Rightarrow>
              (True, foldl (second_pass_face swap ids) (fp @ buffer_pos) (face_vertices m))))"

section \<open>Import from a tetgen structure\<close>

text \<open>The fields of \<open>tetgenio\<close> that the importer reads; \<open>int\<close> fields by their values.\<close>

record 'r tetgenio =
  firstnumber :: int
  numberofpoints :: int
  pointlist :: "'r list"
  numberoftetrahedra :: int
  tetrahedronlist :: "int list"

text \<open>
  \<open>import_file_impl\<close> acts on members of its base class \<open>VolumeImport\<close> and on the
  container of the vertex attributes, which are declared in other files. Its run is
  described by the sequence of these effects, in the order of the source.
\<close>

datatype 'r effect =
    Set_nb_vertices u32
  | Set_nb_volumes u32
  | Reserve_volumes_types u32
  | Reserve_volumes_vertex_indices u32
  | Clear
  | Add_attribute string
  | Insert_lines
  | Set_position u32 'r 'r 'r
  | Add_tetra u32 u32 u32 u32 bool

fun is_Insert_lines :: "'r effect \<Rightarrow> bool" where
  "is_Insert_lines Insert_lines = True"
| "is_Insert_lines _ = False"

fun is_Add_tetra :: "'r effect \<Rightarrow> bool" where
  "is_Add_tetra (Add_tetra a b c d chk) = True"
| "is_Add_tetra _ = False"

text \<open>
  The loop that creates the vertices. \<open>line_id i\<close> is the index that the \<open>i\<close>-th call of
  \<open>insert_lines<1>()\<close> returns; \<open>p\<close> is the part of \<open>pointlist\<close> from the pointer \<open>p\<close> on;
  \<open>Scalar\<close> is the conversion of a \<open>float64\<close> coordinate to the scalar type of \<open>VEC3\<close>.
\<close>

function create_vertices ::
  "('r \<Rightarrow> 's) \<Rightarrow> (nat \<Rightarrow> u32) \<Rightarrow> 'r list \<Rightarrow> nat \<Rightarrow> nat \<Rightarrow> 's effect list \<Rightarrow> u32 list
     \<Rightarrow> fault + ('s effect list \<times> u32 list)" where
  "create_vertices Scalar line_id p i n effects vertices_indices =
     (if i < n then
        (case p of
           x # y # z # p' \<Rightarrow>
             create_vertices Scalar line_id p' (Suc i) n
               (effects @ [Insert_lines, Set_position (line_id i) (Scalar x) (Scalar y) (Scalar z)])
               (vertices_indices @ [line_id i])
         | _ \<Rightarrow> Inl Out_of_bounds)
      else Inr (effects, vertices_indices))"
  by pat_completeness auto
termination
  by (relation "measure (\<lambda>(Scalar, line_id, p, i, n, effects, vertices_indices). n - i)") auto

declare create_vertices.simps [simp del]

text \<open>
  \<open>vertices_indices[t[j] - volume_->firstnumber]\<close>: the difference is an \<open>int\<close>, and the
  index must lie in the vector.
\<close>

definition vertex_of :: "u32 list \<Rightarrow> int \<Rightarrow> int \<Rightarrow> fault + u32" where
  "vertex_of vertices_indices first t =
     (let k = t - first
      in if 0 \<le> k \<and> k < 2 ^ 31 \<and> nat k < length vertices_indices
         then Inr (vertices_indices ! nat k) else Inl Out_of_bounds)"

text \<open>The loop that creates the tetrahedra; \<open>t\<close> is \<open>tetrahedronlist\<close> from the pointer \<open>t\<close> on.\<close>

function create_tetras ::
  "int \<Rightarrow> u32 list \<Rightarrow> int list \<Rightarrow> nat \<Rightarrow> nat \<Rightarrow> 'r effect list \<Rightarrow> fault + 'r effect list" where
  "create_tetras first vertices_indices t i n effects =
     (if i < n then
        (case t of
           t0 # t1 # t2 # t3 # t' \<Rightarrow>
             (case vertex_of vertices_indices first t0 of Inl e \<Rightarrow> Inl e | Inr id0 \<Rightarrow>
              case vertex_of vertices_indices first t1 of Inl e \<Rightarrow> Inl e | Inr id1 \<Rightarrow>
              case vertex_of vertices_indices first t2 of Inl e \<Rightarrow> Inl e | Inr id2 \<Rightarrow>
              case vertex_of vertices_indices first t3 of Inl e \<Rightarrow> Inl e | Inr id3 \<Rightarrow>
                create_tetras first vertices_indices t' (Suc i) n
                  (effects @ [Add_tetra id0 id1 id2 id3 True]))
         | _ \<Rightarrow> Inl Out_of_bounds)
      else Inr effects)"
  by pat_completeness auto
termination
  by (relation "measure (\<lambda>(first, vertices_indices, t, i, n, effects). n - i)") auto

declare create_tetras.simps [simp del]

text \<open>\<open>TetgenStructureVolumeImport::import_file_impl\<close>: the returned flag and the effects.\<close>

definition import_file_impl ::
  "('r \<Rightarrow> 's) \<Rightarrow> (nat \<Rightarrow> u32) \<Rightarrow> 'r tetgenio \<Rightarrow> fault + (bool \<times> 's effect list)" where
  "import_file_impl Scalar line_id volume =
     (let nb_vertices = (of_int (numberofpoints volume) :: u32);
          nb_volumes = (of_int (numberoftetrahedra volume) :: u32);
          effects = [Set_nb_vertices nb_vertices, Set_nb_volumes nb_volumes,
                     Reserve_volumes_types nb_volumes,
                     Reserve_volumes_vertex_indices (4 * nb_volumes)]
      in if nb_vertices = 0 \<or> nb_volumes = 0 then Inr (False, effects @ [Clear])
         else
           (case create_vertices Scalar line_id (pointlist volume) 0 (unat nb_vertices)
                   (effects @ [Add_attribute ''position'']) [] of
              Inl e \<Rightarrow> Inl e
            | Inr (effects', vertices_indices) \<Rightarrow>
                (case create_tetras (firstnumber volume) vertices_indices
                        (tetrahedronlist volume) 0 (unat nb_volumes) effects' of
                   Inl e \<Rightarrow> Inl e
                 | Inr effects'' \<Rightarrow> Inr (True, effects''))))"

text \<open>
  A tetgen structure is well formed when its counts are those of its arrays: three
  coordinates for each point, four vertex numbers for each tetrahedron, each of them the
  number of a point (counted from \<open>firstnumber\<close>).
\<close>

definition wf_tetgenio :: "'r tetgenio \<Rightarrow> bool" where
  "wf_tetgenio volume =
     (0 \<le> numberofpoints volume \<and> numberofpoints volume < 2 ^ 31 \<and>
      0 \<le> numberoftetrahedra volume \<and> numberoftetrahedra volume < 2 ^ 31 \<and>
      length (pointlist volume) = 3 * nat (numberofpoints volume) \<and>
      length (tetrahedronlist volume) = 4 * nat (numberoftetrahedra volume) \<and>
      list_all (\<lambda>t. firstnumber volume \<le> t \<and> t < firstnumber volume + numberofpoints volume)
        (tetrahedronlist volume))"

section \<open>Basic facts\<close>

lemma setNbChunks_grow_eq:
  "setNbChunks_grow C T i nbc tableData =
     tableData @ replicate (nbc - i) (replicate C (default_value T))"
proof (induction C T i nbc tableData rule: setNbChunks_grow.induct)
  case (1 C T i nbc tableData)
  show ?case
  proof (cases "i < nbc")
    case True
    then have "nbc - i = Suc (nbc - Suc i)" by simp
    with True 1 show ?thesis
      by (subst setNbChunks_grow.simps) (simp add: addChunk_def replicate_app_Cons_same)
  next
    case False
    then show ?thesis
      by (subst setNbChunks_grow.simps) simp
  qed
qed

lemma setNbChunks_bool_grow_eq:
  "setNbChunks_bool_grow C i nbc tableData =
     tableData @ replicate (nbc - i) (replicate (C div 32) 0)"
proof (induction C i nbc tableData rule: setNbChunks_bool_grow.induct)
  case (1 C i nbc tableData)
  show ?case
  proof (cases "i < nbc")
    case True
    then have "nbc - i = Suc (nbc - Suc i)" by simp
    with True 1 show ?thesis
      by (subst setNbChunks_bool_grow.simps) (simp add: addChunk_bool_def replicate_app_Cons_same)
  next
    case False
    then show ?thesis
      by (subst setNbChunks_bool_grow.simps) simp
  qed
qed

lemma mask_test_bit: "((w :: u32) AND push_bit y 1 \<noteq> 0) = bit w y"
  by (simp add: bit_iff_and_push_bit_not_eq_0)

lemma chunk_index_less: "0 < C \<Longrightarrow> n < k * C \<Longrightarrow> n div C < (k::nat)"
  by (simp add: less_mult_imp_div_less)

lemma word_index_less: "32 dvd C \<Longrightarrow> a < C \<Longrightarrow> a div 32 < C div (32::nat)"
  by (auto simp: less_mult_imp_div_less mult.commute elim!: dvdE)

lemma wf_chunks_bool_nth: "wf_chunks_bool C tbl \<Longrightarrow> jj < length tbl \<Longrightarrow> length (tbl ! jj) = C div 32"
  by (simp add: wf_chunks_bool_def list_all_length)

lemma bool_slot_ok:
  assumes "0 < C" "32 dvd C" "wf_chunks_bool C tbl" "unat i < length tbl * C"
  shows "unat i div C < length tbl" "(unat i mod C) div 32 < length (tbl ! (unat i div C))"
proof -
  show a: "unat i div C < length tbl" using assms chunk_index_less by blast
  have "unat i mod C < C" using assms(1) by simp
  then have "(unat i mod C) div 32 < C div 32" using assms(2) word_index_less by blast
  then show "(unat i mod C) div 32 < length (tbl ! (unat i div C))"
    using wf_chunks_bool_nth[OF assms(3) a] by simp
qed

lemma bit_position_differs:
  assumes "(j :: u32) \<noteq> i" "unat j div C = unat i div C"
    "(unat j mod C) div 32 = (unat i mod C) div 32"
  shows "(unat j mod C) mod 32 \<noteq> (unat i mod C) mod 32"
proof
  assume e: "(unat j mod C) mod 32 = (unat i mod C) mod 32"
  have "unat j mod C = unat i mod C"
    using assms(3) e by (metis div_mult_mod_eq)
  then have "unat j = unat i"
    using assms(2) by (metis div_mult_mod_eq)
  then show False using assms(1) by (simp add: word_unat_eq_iff)
qed

lemma mask_test_exp: "((w :: u32) AND 2 ^ y \<noteq> 0) = bit w y"
  using mask_test_bit [of w y] by simp

lemma bit_set_mask: "y < 32 \<Longrightarrow> bit ((w :: u32) OR 2 ^ y) z = (bit w z \<or> (z = y))"
  by (auto simp: bit_simps dest: bit_imp_le_length)

lemma bit_clear_mask: "bit ((w :: u32) AND NOT (2 ^ y)) z = (bit w z \<and> z \<noteq> y)"
  by (auto simp: bit_simps dest: bit_imp_le_length)

lemma subscript_bool_update:
  assumes "0 < C" "32 dvd C" "wf_chunks_bool C tbl" "unat i < length tbl * C"
    "unat j < length tbl * C"
  shows "subscript_bool C (tbl[unat i div C := (tbl ! (unat i div C))[(unat i mod C) div 32 := w]]) j =
    (if unat j div C = unat i div C \<and> (unat j mod C) div 32 = (unat i mod C) div 32
     then Inr (bit w ((unat j mod C) mod 32))
     else subscript_bool C tbl j)"
  using bool_slot_ok[OF assms(1-4)] bool_slot_ok[OF assms(1-3) assms(5)]
  by (auto simp: subscript_bool_def Let_def nth_list_update mask_test_exp)

lemma subscript_bool_bit:
  assumes "0 < C" "32 dvd C" "wf_chunks_bool C tbl" "unat j < length tbl * C"
  shows "subscript_bool C tbl j = Inr (bit (tbl ! (unat j div C) ! ((unat j mod C) div 32)) ((unat j mod C) mod 32))"
  using bool_slot_ok[OF assms]
  by (auto simp: subscript_bool_def Let_def mask_test_exp)

lemma wf_chunks_nth: "wf_chunks C tbl \<Longrightarrow> jj < length tbl \<Longrightarrow> length (tbl ! jj) = C"
  by (simp add: wf_chunks_def list_all_length)

lemma setNbChunks_eq:
  "setNbChunks C T n tbl =
     (if length tbl \<le> unat n
      then tbl @ replicate (unat n - length tbl) (replicate C (default_value T))
      else take (unat n) tbl)"
  by (simp add: setNbChunks_def setNbChunks_grow_eq)

lemma subscript_ok:
  assumes "0 < C" "wf_chunks C tbl" "unat i < length tbl * C"
  shows "subscript C tbl i = Inr (tbl ! (unat i div C) ! (unat i mod C))"
proof -
  have a: "unat i div C < length tbl" using assms chunk_index_less by blast
  then show ?thesis
    using assms(1) wf_chunks_nth[OF assms(2) a] by (simp add: subscript_def Let_def)
qed

lemma wf_chunks_setNbChunks: "wf_chunks C tbl \<Longrightarrow> wf_chunks C (setNbChunks C T n tbl)"
  by (auto simp: setNbChunks_eq wf_chunks_def list_all_iff dest: in_set_takeD)

lemma bytes_word_word_bytes: "bytes_word (word_bytes w) = w"
  unfolding word_bytes_def bytes_word.simps
proof (rule bit_word_eqI)
  fix n :: nat
  assume "n < LENGTH(32)"
  then have n: "n < 32" by simp
  consider "n < 8" | "8 \<le> n" "n < 16" | "16 \<le> n" "n < 24" | "24 \<le> n" "n < 32"
    using n by linarith
  then show "bit (ucast (ucast w :: byte) OR push_bit 8 (ucast (ucast (drop_bit 8 w) :: byte)) OR
                  push_bit 16 (ucast (ucast (drop_bit 16 w) :: byte)) OR
                  push_bit 24 (ucast (ucast (drop_bit 24 w) :: byte)) :: u32) n = bit w n"
    by cases (auto simp: bit_simps)
qed

lemma length_word_bytes: "length (word_bytes w) = 4"
  by (simp add: word_bytes_def)

lemma header_fields:
  "bytes_word (take 4 (word_bytes n0 @ word_bytes n1 @ word_bytes n2 @ payload)) = n0"
  "bytes_word (take 4 (drop 4 (word_bytes n0 @ word_bytes n1 @ word_bytes n2 @ payload))) = n1"
  "bytes_word (take 4 (drop 8 (word_bytes n0 @ word_bytes n1 @ word_bytes n2 @ payload))) = n2"
  "drop 12 (word_bytes n0 @ word_bytes n1 @ word_bytes n2 @ payload) = payload"
  by (simp_all add: length_word_bytes bytes_word_word_bytes)

lemma header_length:
  "\<not> length (word_bytes n0 @ word_bytes n1 @ word_bytes n2 @ payload) < 12"
  by (simp add: length_word_bytes)

lemma chop_concat:
  assumes "0 < n" "\<forall>xs \<in> set xss. length xs = n"
  shows "chop n (concat xss) = xss"
  using assms(2)
proof (induction xss)
  case Nil
  show ?case using assms(1) by (cases n) simp_all
next
  case (Cons xs xss)
  obtain m where n: "n = Suc m" using assms(1) by (cases n) auto
  have l: "length xs = Suc m" using Cons.prems n by simp
  then obtain y ys where xs: "xs = y # ys" by (cases xs) auto
  have "chop (Suc m) (concat (xs # xss)) = take (Suc m) (xs @ concat xss) # chop (Suc m) (drop (Suc m) (xs @ concat xss))"
    using xs by simp
  also have "\<dots> = xs # chop (Suc m) (concat xss)" using l by simp
  also have "\<dots> = xs # xss" using Cons n by simp
  finally show ?case using n by simp
qed

lemma length_chunk_bytes:
  assumes "\<And>x. length (object_bytes T x) = size_of T"
  shows "length (chunk_bytes T c) = length c * size_of T"
  by (induction c) (simp_all add: chunk_bytes_def assms)

lemma chunk_bytes_append: "chunk_bytes T (a @ b) = chunk_bytes T a @ chunk_bytes T b"
  by (simp add: chunk_bytes_def)

lemma bytes_chunk_chunk_bytes:
  assumes "0 < size_of T" "\<And>x. length (object_bytes T x) = size_of T"
    "\<And>x. object_value T (object_bytes T x) = x"
  shows "bytes_chunk T (chunk_bytes T c) = c"
proof -
  have "chop (size_of T) (concat (map (object_bytes T) c)) = map (object_bytes T) c"
    by (rule chop_concat) (auto simp: assms)
  then show ?thesis
    by (simp add: bytes_chunk_def chunk_bytes_def assms(3) map_idI)
qed

lemma take_chunk_bytes:
  assumes "\<And>x. length (object_bytes T x) = size_of T"
  shows "take (m * size_of T) (chunk_bytes T c) = chunk_bytes T (take m c)"
proof (induction c arbitrary: m)
  case Nil
  then show ?case by (simp add: chunk_bytes_def)
next
  case (Cons x c)
  show ?case
  proof (cases m)
    case 0
    then show ?thesis by (simp add: chunk_bytes_def)
  next
    case (Suc k)
    have "take (Suc k * size_of T) (chunk_bytes T (x # c)) =
          object_bytes T x @ take (k * size_of T) (chunk_bytes T c)"
      by (simp add: chunk_bytes_def assms)
    then show ?thesis using Cons [of k] Suc by (simp add: chunk_bytes_def)
  qed
qed

lemma drop_chunk_bytes:
  assumes "\<And>x. length (object_bytes T x) = size_of T"
  shows "drop (m * size_of T) (chunk_bytes T c) = chunk_bytes T (drop m c)"
proof (induction c arbitrary: m)
  case Nil
  then show ?case by (simp add: chunk_bytes_def)
next
  case (Cons x c)
  show ?case
  proof (cases m)
    case 0
    then show ?thesis by (simp add: chunk_bytes_def)
  next
    case (Suc k)
    have "drop (Suc k * size_of T) (chunk_bytes T (x # c)) =
          drop (k * size_of T) (chunk_bytes T c)"
      by (simp add: chunk_bytes_def assms)
    then show ?thesis using Cons [of k] Suc by simp
  qed
qed

lemma save_chunks_full:
  assumes "i \<le> nbca" "nbca \<le> length tbl"
    "\<And>j. j < nbca \<Longrightarrow> length (chunk_bytes T (tbl ! j)) = n"
  shows "save_chunks T n tbl i nbca fs =
           Inr (fs @ concat (map (chunk_bytes T) (take (nbca - i) (drop i tbl))))"
  using assms
proof (induction T n tbl i nbca fs rule: save_chunks.induct)
  case (1 T n tbl i nbca fs)
  show ?case
  proof (cases "i < nbca")
    case False
    then show ?thesis using "1.prems" by (subst save_chunks.simps) simp
  next
    case True
    then have il: "i < length tbl" using "1.prems" by simp
    have rd: "read_mem (chunk_bytes T (tbl ! i)) n = Inr (chunk_bytes T (tbl ! i))"
      using "1.prems"(3) [OF True] by (simp add: read_mem_def)
    have ih: "save_chunks T n tbl (Suc i) nbca (fs @ chunk_bytes T (tbl ! i)) =
           Inr ((fs @ chunk_bytes T (tbl ! i)) @
                 concat (map (chunk_bytes T) (take (nbca - Suc i) (drop (Suc i) tbl))))"
      using "1.IH" [OF True il rd] True "1.prems" by simp
    have "take (nbca - i) (drop i tbl) = tbl ! i # take (nbca - Suc i) (drop (Suc i) tbl)"
    proof -
      have "nbca - i = Suc (nbca - Suc i)" using True by simp
      moreover have "drop i tbl = tbl ! i # drop (Suc i) tbl"
        using il by (simp add: Cons_nth_drop_Suc)
      ultimately show ?thesis by simp
    qed
    then show ?thesis
      using True il rd ih by (subst save_chunks.simps) simp
  qed
qed

lemma load_chunks_full:
  assumes "length cs = nbca - i" "i \<le> nbca" "nbca \<le> length tbl"
    "\<And>c. c \<in> set cs \<Longrightarrow> length (chunk_bytes T c) = n \<and> bytes_chunk T (chunk_bytes T c) = c"
    "\<And>j. j < nbca \<Longrightarrow> length (chunk_bytes T (tbl ! j)) = n"
  shows "load_chunks T n i nbca tbl (concat (map (chunk_bytes T) cs) @ rest) =
           Inr (take i tbl @ cs @ drop nbca tbl, rest)"
  using assms
proof (induction cs arbitrary: i tbl)
  case Nil
  then have "i = nbca" by simp
  then show ?case by (subst load_chunks.simps) simp
next
  case (Cons c cs)
  have lt: "i < nbca" using Cons.prems(1) by simp
  then have il: "i < length tbl" using Cons.prems(3) by simp
  have lc: "length (chunk_bytes T c) = n" and rc: "bytes_chunk T (chunk_bytes T c) = c"
    using Cons.prems(4) [of c] by simp_all
  let ?fs = "concat (map (chunk_bytes T) (c # cs)) @ rest"
  have tk: "take n ?fs = chunk_bytes T c" using lc by simp
  have dr: "drop n ?fs = concat (map (chunk_bytes T) cs) @ rest" using lc by simp
  have wr: "write_mem (chunk_bytes T (tbl ! i)) (take n ?fs) = Inr (chunk_bytes T c)"
    unfolding tk using Cons.prems(5) [OF lt] lc by (simp add: write_mem_def)
  let ?tbl = "tbl[i := c]"
  have ih: "load_chunks T n (Suc i) nbca ?tbl (concat (map (chunk_bytes T) cs) @ rest) =
           Inr (take (Suc i) ?tbl @ cs @ drop nbca ?tbl, rest)"
  proof (rule Cons.IH)
    show "length cs = nbca - Suc i" using Cons.prems(1) by simp
    show "Suc i \<le> nbca" using lt by simp
    show "nbca \<le> length ?tbl" using Cons.prems(3) by simp
    show "length (chunk_bytes T c') = n \<and> bytes_chunk T (chunk_bytes T c') = c'"
      if "c' \<in> set cs" for c' using Cons.prems(4) [of c'] that by simp
    show "length (chunk_bytes T (?tbl ! j)) = n" if "j < nbca" for j
      using Cons.prems(5) [OF that] lc il by (cases "j = i") simp_all
  qed
  have e: "take (Suc i) ?tbl @ cs @ drop nbca ?tbl = take i tbl @ (c # cs) @ drop nbca tbl"
    using il lt by (simp add: take_Suc_conv_app_nth)
  have "load_chunks T n i nbca tbl ?fs =
          load_chunks T n (Suc i) nbca ?tbl (concat (map (chunk_bytes T) cs) @ rest)"
    using lt il wr dr rc
    by (subst load_chunks.simps) (simp del: concat.simps map_append list.map)
  then show ?case using ih e by simp
qed

lemma unat_of_nat_u32: "n < 2 ^ 32 \<Longrightarrow> unat (of_nat n :: u32) = n"
  by (simp add: unat_of_nat)

lemma header_u32:
  assumes "0 < k" "k < 2 ^ 32"
  shows "(of_nat k :: u32) \<noteq> 0" "unat (of_nat k - 1 :: u32) = k - 1"
    "(of_nat k - 1 :: u32) = of_nat (k - 1)"
proof -
  show a: "(of_nat k :: u32) \<noteq> 0"
    using assms unat_of_nat_u32 [of k] by (metis not_less_zero unat_0 neq0_conv)
  show "unat (of_nat k - 1 :: u32) = k - 1"
    using a assms by (simp add: unat_minus_one unat_of_nat_u32)
  show "(of_nat k - 1 :: u32) = of_nat (k - 1)"
    using assms(1) by (simp add: of_nat_diff)
qed

lemma tail_count_u32:
  assumes "m \<le> unat (w :: u32)"
  shows "unat (w - of_nat m) = unat w - m"
proof -
  have "unat w < 2 ^ 32" using unsigned_less [of w] by simp
  then have m: "m < 2 ^ 32" using assms by simp
  have u: "unat (of_nat m :: u32) = m" using m by (rule unat_of_nat_u32)
  have "(of_nat m :: u32) \<le> w"
    using assms u by (simp add: word_le_nat_alt)
  then have "unat (w - of_nat m) = unat w - unat (of_nat m :: u32)" by (rule unat_sub)
  then show ?thesis using u by simp
qed

lemma save_layout:
  assumes T: "\<And>x. length (object_bytes T x) = size_of T"
    and C: "0 < C"
    and wf: "wf_chunks C tbl" and k: "length tbl = Suc km" "length tbl < 2 ^ 32"
    and lo: "km * C \<le> unat nbLines" and hi: "unat nbLines \<le> length tbl * C"
  shows "save C T tbl nbLines =
           Inr (word_bytes (of_nat (length tbl)) @ word_bytes nbLines @
                word_bytes (of_nat (C * size_of T)) @
                concat (map (chunk_bytes T) (butlast tbl)) @
                chunk_bytes T (take (unat nbLines - km * C) (last tbl)))"
proof -
  let ?k = "length tbl"
  let ?nbs0 = "of_nat ?k :: u32"
  let ?hdr = "word_bytes ?nbs0 @ word_bytes nbLines @ word_bytes (of_nat (C * size_of T))"
  let ?nl = "unat nbLines - km * C"
  have kpos: "0 < ?k" using k(1) by simp
  have ne: "tbl \<noteq> []" using k(1) by auto
  have n0: "?nbs0 \<noteq> 0" using header_u32(1) [OF kpos k(2)] .
  have nbca: "unat (?nbs0 - 1) = km" using header_u32(2) [OF kpos k(2)] k(1) by simp
  have nbca': "?nbs0 - 1 = of_nat km" using header_u32(3) [OF kpos k(2)] k(1) by simp
  have asrt: "unat nbLines div C \<le> ?k"
    using hi C by (metis div_le_mono nonzero_mult_div_cancel_right less_numeral_extra(3))
  have cl: "length (chunk_bytes T (tbl ! j)) = C * size_of T" if "j < ?k" for j
    using wf_chunks_nth [OF wf that] by (simp add: length_chunk_bytes [OF T])
  have "save_chunks T (C * size_of T) tbl 0 km ?hdr =
              Inr (?hdr @ concat (map (chunk_bytes T) (take (km - 0) (drop 0 tbl))))"
    by (rule save_chunks_full) (use k(1) cl in simp_all)
  then have sc: "save_chunks T (C * size_of T) tbl 0 km ?hdr =
              Inr (?hdr @ concat (map (chunk_bytes T) (butlast tbl)))"
    using k(1) by (simp add: butlast_conv_take)
  have "(?nbs0 - 1) * of_nat C = (of_nat (km * C) :: u32)"
    unfolding nbca' by simp
  then have nl: "unat (nbLines - (?nbs0 - 1) * of_nat C) = ?nl"
    using tail_count_u32 [OF lo] by simp
  have nlC: "?nl \<le> C" using hi k(1) by simp
  have lastc: "tbl ! km = last tbl" using ne k(1) by (simp add: last_conv_nth)
  have "length (chunk_bytes T (last tbl)) = C * size_of T"
    using cl [of km] k(1) lastc by simp
  then have rd: "read_mem (chunk_bytes T (tbl ! km)) (?nl * size_of T) =
              Inr (chunk_bytes T (take ?nl (last tbl)))"
    using nlC by (simp add: read_mem_def take_chunk_bytes [OF T] lastc)
  have kml: "km < ?k" using k(1) by simp
  show ?thesis
    unfolding save_def Let_def nbca nl
    using asrt n0 kml by (simp only: sc rd) simp
qed

lemma load_layout:
  assumes T: "\<And>x. length (object_bytes T x) = size_of T" "0 < size_of T"
      "\<And>x. object_value T (object_bytes T x) = x"
    and C: "C * size_of T < 2 ^ 32"
    and k: "k = Suc km" "k < 2 ^ 32" "length cs = km" "\<forall>c \<in> set cs. length c = C"
      "length tail \<le> C"
    and nb: "unat nbLines = km * C + length tail"
  shows "load C T [] (word_bytes (of_nat k) @ word_bytes nbLines @
                      word_bytes (of_nat (C * size_of T)) @
                      concat (map (chunk_bytes T) cs) @ chunk_bytes T tail) =
           Inr (True, cs @ [tail @ replicate (C - length tail) (default_value T)], [])"
proof -
  let ?nbs0 = "of_nat k :: u32"
  let ?nbs2 = "of_nat (C * size_of T) :: u32"
  let ?body = "concat (map (chunk_bytes T) cs) @ chunk_bytes T tail"
  let ?fs = "word_bytes ?nbs0 @ word_bytes nbLines @ word_bytes ?nbs2 @ ?body"
  let ?fresh = "replicate C (default_value T)"
  let ?n = "C * size_of T"
  have kpos: "0 < k" using k(1) by simp
  have n0: "?nbs0 \<noteq> 0" using header_u32(1) [OF kpos k(2)] .
  have nbca: "unat (?nbs0 - 1) = km" using header_u32(2) [OF kpos k(2)] k(1) by simp
  have nbca': "?nbs0 - 1 = of_nat km" using header_u32(3) [OF kpos k(2)] k(1) by simp
  have uk: "unat ?nbs0 = k" using k(2) by (rule unat_of_nat_u32)
  have u2: "unat ?nbs2 = ?n" using C by (rule unat_of_nat_u32)
  have t1: "setNbChunks C T ?nbs0 [] = replicate k ?fresh"
    using uk by (simp add: setNbChunks_eq)
  have kk: "k - km = 1" "km \<le> k" using k(1) by simp_all
  have dk: "drop km (replicate k ?fresh) = [?fresh]"
    by (simp only: drop_replicate kk) simp
  have lf: "length (chunk_bytes T ?fresh) = ?n"
    by (simp add: length_chunk_bytes [OF T(1)])
  have "load_chunks T ?n 0 km (replicate k ?fresh) ?body =
          Inr (take 0 (replicate k ?fresh) @ cs @ drop km (replicate k ?fresh),
               chunk_bytes T tail)"
  proof (rule load_chunks_full)
    show "length cs = km - 0" using k(3) by simp
    show "0 \<le> km" by simp
    show "km \<le> length (replicate k ?fresh)" using kk by simp
    show "length (chunk_bytes T c) = ?n \<and> bytes_chunk T (chunk_bytes T c) = c"
      if "c \<in> set cs" for c
      using that k(4) by (simp add: length_chunk_bytes [OF T(1)] bytes_chunk_chunk_bytes [OF T(2,1,3)])
    show "length (chunk_bytes T (replicate k ?fresh ! j)) = ?n" if "j < km" for j
      using that lf kk by simp
  qed
  then have lc: "load_chunks T ?n 0 km (replicate k ?fresh) ?body =
          Inr (cs @ [?fresh], chunk_bytes T tail)"
    by (simp only: dk take_0 append_Nil)
  have "(of_nat C :: u32) * (?nbs0 - 1) = of_nat (km * C)"
    unfolding nbca' by (simp add: mult.commute)
  moreover have "km * C \<le> unat nbLines" using nb by simp
  ultimately have nl: "unat (nbLines - of_nat C * (?nbs0 - 1)) = length tail"
    using tail_count_u32 [of "km * C" nbLines] nb by simp
  have nth: "(cs @ [?fresh]) ! km = ?fresh" unfolding k(3) [symmetric] by simp
  have tk: "take (length tail * size_of T) (chunk_bytes T tail) = chunk_bytes T tail"
    by (simp add: length_chunk_bytes [OF T(1)])
  have dr: "drop (length tail * size_of T) (chunk_bytes T tail) = []"
    by (simp add: length_chunk_bytes [OF T(1)])
  have "drop (length tail * size_of T) (chunk_bytes T ?fresh) =
          chunk_bytes T (replicate (C - length tail) (default_value T))"
    by (simp add: drop_chunk_bytes [OF T(1)])
  then have wr: "write_mem (chunk_bytes T ?fresh) (chunk_bytes T tail) =
          Inr (chunk_bytes T (tail @ replicate (C - length tail) (default_value T)))"
    using k(5) by (simp add: write_mem_def length_chunk_bytes [OF T(1)] chunk_bytes_append)
  have bc: "bytes_chunk T (chunk_bytes T (tail @ replicate (C - length tail) (default_value T))) =
          tail @ replicate (C - length tail) (default_value T)"
    by (rule bytes_chunk_chunk_bytes [OF T(2,1,3)])
  have upd: "(cs @ [?fresh])[km := tail @ replicate (C - length tail) (default_value T)] =
          cs @ [tail @ replicate (C - length tail) (default_value T)]"
    unfolding k(3) [symmetric] by simp
  have kml: "km < length (cs @ [?fresh])" using k(3) by simp
  have hl: "\<not> length ?fs < 12" by (rule header_length)
  show ?thesis
    unfolding load_def Let_def header_fields
    using hl n0 u2 kml
    by (simp only: t1 nbca lc nl) (simp add: nth tk dr wr bc upd)
qed

lemma u32_type_fixed:
  "size_of u32_type = 4" "length (object_bytes u32_type x) = 4"
  "length (object_bytes u32_type x) = size_of u32_type"
  "object_value u32_type (object_bytes u32_type x) = x" "default_value u32_type = 0"
  by (simp_all add: u32_type_def length_word_bytes bytes_word_word_bytes)

lemma setNbChunks_bool_eq:
  "setNbChunks_bool C n tbl =
     (if length tbl \<le> unat n
      then tbl @ replicate (unat n - length tbl) (replicate (C div 32) 0)
      else take (unat n) tbl)"
  by (simp add: setNbChunks_bool_def setNbChunks_bool_grow_eq)

lemma words_prefix_bytes:
  "take (m * 4) (chunk_bytes u32_type c) = chunk_bytes u32_type (take m c)"
  "drop (m * 4) (chunk_bytes u32_type c) = chunk_bytes u32_type (drop m c)"
  "length (chunk_bytes u32_type c) = length c * 4"
  "bytes_chunk u32_type (chunk_bytes u32_type c) = c"
  using take_chunk_bytes [of u32_type m c] drop_chunk_bytes [of u32_type m c]
    length_chunk_bytes [of u32_type c] bytes_chunk_chunk_bytes [of u32_type c]
  by (simp_all add: u32_type_fixed)

lemma save_bool_one_chunk_70:
  assumes "96 \<le> C" "C < 2 ^ 32" "3 \<le> length c"
  shows "save_bool C [c] 70 =
           Inr (word_bytes 1 @ word_bytes 96 @ word_bytes (of_nat C div 8) @
                chunk_bytes u32_type (take 3 c))"
proof -
  have asrt: "(96::nat) div C \<le> 1"
    using assms(1) div_le_mono2 [of 96 C 96] by simp
  have rd: "read_mem (chunk_bytes u32_type c) 12 = Inr (chunk_bytes u32_type (take 3 c))"
    using assms(3) words_prefix_bytes(1) [of 3 c]
    by (simp add: read_mem_def words_prefix_bytes(3))
  show ?thesis
    using asrt rd by (simp add: save_bool_def Let_def save_chunks.simps)
qed

lemma load_bool_one_chunk_70:
  assumes "96 \<le> C" "C < 2 ^ 32" "length w = 3"
  shows "load_bool C [] (word_bytes 1 @ word_bytes 96 @ word_bytes (of_nat C div 8) @
                chunk_bytes u32_type w @ []) =
           Inr (True, [w @ replicate (C div 32 - 3) 0], [])"
proof -
  let ?n = "C div 32"
  let ?fs = "word_bytes 1 @ word_bytes 96 @ word_bytes (of_nat C div 8) @ chunk_bytes u32_type w @ []"
  have n3: "3 \<le> ?n" using assms(1) by simp
  have hl: "\<not> length ?fs < 12" by (rule header_length)
  have t1: "setNbChunks_bool C 1 [] = [replicate ?n 0]"
    by (simp add: setNbChunks_bool_eq)
  have lw: "length (chunk_bytes u32_type w) = 12"
    using assms(3) by (simp add: words_prefix_bytes(3))
  have "drop (3 * 4) (chunk_bytes u32_type (replicate ?n 0)) =
          chunk_bytes u32_type (replicate (?n - 3) 0)"
    by (simp only: words_prefix_bytes(2)) simp
  then have wr: "write_mem (chunk_bytes u32_type (replicate ?n 0)) (chunk_bytes u32_type w) =
          Inr (chunk_bytes u32_type (w @ replicate (?n - 3) 0))"
    using n3 lw by (simp add: write_mem_def words_prefix_bytes(3) chunk_bytes_append)
  show ?thesis
    unfolding load_bool_def Let_def header_fields
    using hl by (simp add: t1 load_chunks.simps lw wr words_prefix_bytes(4))
qed

lemma create_vertices_run:
  assumes "i \<le> n" "length p = 3 * (n - i)"
  shows "\<exists>es vs. create_vertices Scalar line_id p i n effects vertices_indices =
             Inr (effects @ es, vertices_indices @ vs) \<and>
           length vs = n - i \<and> length (filter is_Insert_lines es) = n - i \<and>
           filter is_Add_tetra es = [] \<and> Clear \<notin> set es"
  using assms
proof (induction Scalar line_id p i n effects vertices_indices rule: create_vertices.induct)
  case (1 Scalar line_id p i n effects vertices_indices)
  show ?case
  proof (cases "i < n")
    case False
    then show ?thesis by (subst create_vertices.simps) simp
  next
    case True
    then have "length p \<ge> 3" using "1.prems" by simp
    then obtain x y z p' where p: "p = x # y # z # p'"
      by (cases p; cases "tl p"; cases "tl (tl p)") auto
    have len: "length p' = 3 * (n - Suc i)" using "1.prems" True p by simp
    have le: "Suc i \<le> n" using True by simp
    from "1.IH" [OF True p refl refl le len]
    obtain es vs where
      r: "create_vertices Scalar line_id p' (Suc i) n
            (effects @ [Insert_lines, Set_position (line_id i) (Scalar x) (Scalar y) (Scalar z)])
            (vertices_indices @ [line_id i]) =
          Inr ((effects @ [Insert_lines, Set_position (line_id i) (Scalar x) (Scalar y) (Scalar z)]) @ es,
               (vertices_indices @ [line_id i]) @ vs)" and
      f: "length vs = n - Suc i" "length (filter is_Insert_lines es) = n - Suc i"
         "filter is_Add_tetra es = []" "Clear \<notin> set es"
      by blast
    let ?es = "[Insert_lines, Set_position (line_id i) (Scalar x) (Scalar y) (Scalar z)] @ es"
    let ?vs = "[line_id i] @ vs"
    have "create_vertices Scalar line_id p i n effects vertices_indices =
            Inr (effects @ ?es, vertices_indices @ ?vs)"
      using True p r by (subst create_vertices.simps) simp
    moreover have "length ?vs = n - i" "length (filter is_Insert_lines ?es) = n - i"
      "filter is_Add_tetra ?es = []" "Clear \<notin> set ?es"
      using f True by auto
    ultimately show ?thesis by blast
  qed
qed

lemma vertex_of_ok:
  assumes "first \<le> t" "t < first + int (length vs)" "length vs < 2 ^ 31"
  shows "vertex_of vs first t = Inr (vs ! nat (t - first))"
  using assms by (simp add: vertex_of_def Let_def)

lemma create_tetras_run:
  assumes "i \<le> n" "length t = 4 * (n - i)" "length vs < 2 ^ 31"
    "list_all (\<lambda>x. first \<le> x \<and> x < first + int (length vs)) t"
  shows "\<exists>es. create_tetras first vs t i n effects = Inr (effects @ es) \<and>
           length (filter is_Add_tetra es) = n - i \<and>
           filter is_Insert_lines es = [] \<and> Clear \<notin> set es"
  using assms
proof (induction first vs t i n effects rule: create_tetras.induct)
  case (1 first vs t i n effects)
  show ?case
  proof (cases "i < n")
    case False
    then show ?thesis by (subst create_tetras.simps) simp
  next
    case True
    then have "length t \<ge> 4" using "1.prems" by simp
    then obtain t0 t1 t2 t3 t' where t: "t = t0 # t1 # t2 # t3 # t'"
      by (cases t; cases "tl t"; cases "tl (tl t)"; cases "tl (tl (tl t))") auto
    have len: "length t' = 4 * (n - Suc i)" using "1.prems" True t by simp
    have le: "Suc i \<le> n" using True by simp
    have all: "list_all (\<lambda>x. first \<le> x \<and> x < first + int (length vs)) t'"
      using "1.prems"(4) t by simp
    have v: "vertex_of vs first t0 = Inr (vs ! nat (t0 - first))"
      "vertex_of vs first t1 = Inr (vs ! nat (t1 - first))"
      "vertex_of vs first t2 = Inr (vs ! nat (t2 - first))"
      "vertex_of vs first t3 = Inr (vs ! nat (t3 - first))"
      using "1.prems"(3,4) t by (simp_all add: vertex_of_ok)
    let ?e = "Add_tetra (vs ! nat (t0 - first)) (vs ! nat (t1 - first))
                (vs ! nat (t2 - first)) (vs ! nat (t3 - first)) True"
    from "1.IH" [OF True t refl refl refl v(1) v(2) v(3) v(4) le len "1.prems"(3) all]
    obtain es where
      r: "create_tetras first vs t' (Suc i) n (effects @ [?e]) = Inr ((effects @ [?e]) @ es)" and
      f: "length (filter is_Add_tetra es) = n - Suc i" "filter is_Insert_lines es = []"
         "Clear \<notin> set es"
      by blast
    have "create_tetras first vs t i n effects = Inr (effects @ ([?e] @ es))"
      using True t v r by (subst create_tetras.simps) simp
    moreover have "length (filter is_Add_tetra ([?e] @ es)) = n - i"
      "filter is_Insert_lines ([?e] @ es) = []" "Clear \<notin> set ([?e] @ es)"
      using f True by auto
    ultimately show ?thesis by blast
  qed
qed

lemma unat_of_int_small: "0 \<le> k \<Longrightarrow> k < 2 ^ 31 \<Longrightarrow> unat (of_int k :: u32) = nat k"
  by (simp add: unat_eq_nat_uint uint_word_of_int)

lemma of_int_zero_iff: "0 \<le> k \<Longrightarrow> k < 2 ^ 31 \<Longrightarrow> (of_int k :: u32) = 0 \<longleftrightarrow> k = 0"
  using unat_of_int_small [of k] by (metis nat_0_iff unat_eq_0 unat_0 of_int_0 order_antisym)

lemma second_pass_prefix: "\<exists>r. foldl (second_pass_face swap ids) out fs = out @ r"
proof (induction fs arbitrary: out)
  case Nil
  then show ?case by simp
next
  case (Cons f fs)
  obtain r where r: "foldl (second_pass_face swap ids) (second_pass_face swap ids out f) fs =
      second_pass_face swap ids out f @ r"
    using Cons.IH by blast
  obtain x where x: "second_pass_face swap ids out f = out @ x"
    by (simp add: second_pass_face_def)
  have "foldl (second_pass_face swap ids) out (f # fs) = out @ (x @ r)"
    using r x by simp
  then show ?case by blast
qed

section \<open>Capacity of a column\<close>

text \<open>
  Claim C1. The bit-packed column is claimed to report \<open>nb_chunks * CHUNKSIZE\<close> as its
  capacity, like the generic column. The code divides by 32: it counts the allocated
  words. With \<open>CHUNKSIZE = 32\<close> and one chunk the bit-packed column reports 1, where the
  generic column of one chunk reports 32.
\<close>

theorem capacity_bool_counts_words:
  "getNbChunks_bool (setNbChunks_bool 32 1 []) = 1 \<and>
   capacity_bool 32 (setNbChunks_bool 32 1 []) = 1 \<and>
   capacity_bool 32 (setNbChunks_bool 32 1 []) \<noteq> 1 * 32 \<and>
   capacity_bool 32 (addChunk_bool 32 []) = 1 \<and>
   capacity 32 (setNbChunks 32 T 1 []) = 1 * 32 \<and>
   capacity 32 (addChunk 32 T []) = 1 * 32"
  by (simp add: getNbChunks_bool_def capacity_bool_def capacity_def setNbChunks_bool_def
      setNbChunks_def setNbChunks_bool_grow_eq setNbChunks_grow_eq addChunk_bool_def addChunk_def)

section \<open>Writing single bits\<close>

text \<open>
  Claim C6. In a well-formed bit-packed column, \<open>setFalseDirty\<close> at an index in range
  succeeds; afterwards every index of the same 32-bit word of the same chunk reads false,
  and every other index in range reads what it read before.
\<close>

theorem setFalseDirty_clears_word:
  assumes "0 < C" "32 dvd C" "wf_chunks_bool C tbl" "unat i < length tbl * C"
  shows "\<exists>tbl'. setFalseDirty C i tbl = Inr tbl' \<and>
           (\<forall>j. unat j < length tbl * C \<longrightarrow>
              subscript_bool C tbl' j =
                (if unat j div C = unat i div C \<and> (unat j mod C) div 32 = (unat i mod C) div 32
                 then Inr False else subscript_bool C tbl j))"
proof -
  note si = bool_slot_ok[OF assms]
  let ?t = "tbl[unat i div C := (tbl ! (unat i div C))[(unat i mod C) div 32 := 0]]"
  have 1: "setFalseDirty C i tbl = Inr ?t"
    using si by (simp add: setFalseDirty_def Let_def)
  have 2: "subscript_bool C ?t j =
                (if unat j div C = unat i div C \<and> (unat j mod C) div 32 = (unat i mod C) div 32
                 then Inr False else subscript_bool C tbl j)" if "unat j < length tbl * C" for j
  proof -
    note sj = bool_slot_ok[OF assms(1-3) that]
    show ?thesis
      using si sj by (auto simp: subscript_bool_def Let_def nth_list_update)
  qed
  show ?thesis using 1 2 by blast
qed

theorem setFalseDirty_clears_word_witness:
  "0 < (64::nat) \<and> (32::nat) dvd 64 \<and> wf_chunks_bool 64 [[0xFFFFFFFF, 0xFFFFFFFF]] \<and>
   unat (3::u32) < length [[0xFFFFFFFF, 0xFFFFFFFF :: u32]] * 64 \<and>
   (\<exists>tbl'. setFalseDirty 64 3 [[0xFFFFFFFF, 0xFFFFFFFF]] = Inr tbl' \<and>
      subscript_bool 64 tbl' 3 = Inr False \<and>
      subscript_bool 64 tbl' 31 = Inr False \<and>
      subscript_bool 64 tbl' 32 = Inr True)"
proof -
  have h: "0 < (64::nat)" "(32::nat) dvd 64" "wf_chunks_bool 64 [[0xFFFFFFFF, 0xFFFFFFFF]]"
    "unat (3::u32) < length [[0xFFFFFFFF, 0xFFFFFFFF :: u32]] * 64"
    by (simp_all add: wf_chunks_bool_def)
  from setFalseDirty_clears_word [OF h] obtain tbl' where
    a: "setFalseDirty 64 3 [[0xFFFFFFFF, 0xFFFFFFFF]] = Inr tbl'" and
    b: "\<And>j. unat j < length [[0xFFFFFFFF, 0xFFFFFFFF :: u32]] * 64 \<Longrightarrow>
          subscript_bool 64 tbl' j =
            (if unat j div 64 = unat (3::u32) div 64 \<and> (unat j mod 64) div 32 = (unat (3::u32) mod 64) div 32
             then Inr False else subscript_bool 64 [[0xFFFFFFFF, 0xFFFFFFFF]] j)"
    by blast
  have "subscript_bool 64 tbl' 3 = Inr False" using b [of 3] by simp
  moreover have "subscript_bool 64 tbl' 31 = Inr False" using b [of 31] by simp
  moreover have "subscript_bool 64 tbl' 32 = Inr True"
    using b [of 32] by (simp add: subscript_bool_def)
  ultimately show ?thesis using h a by blast
qed

text \<open>
  Claim C10. In a well-formed bit-packed column, \<open>setTrue\<close>, \<open>setFalse\<close> and \<open>setVal\<close>
  at an index \<open>i\<close> in range succeed; afterwards \<open>i\<close> reads true, false and \<open>b\<close>, and
  every other index in range reads what it read before.
\<close>

theorem set_bit_frame:
  assumes "0 < C" "32 dvd C" "wf_chunks_bool C tbl" "unat i < length tbl * C"
  shows "\<exists>t1 t2 t3.
           setTrue C i tbl = Inr t1 \<and> setFalse C i tbl = Inr t2 \<and> setVal_bool C i b tbl = Inr t3 \<and>
           subscript_bool C t1 i = Inr True \<and>
           subscript_bool C t2 i = Inr False \<and>
           subscript_bool C t3 i = Inr b \<and>
           (\<forall>j. unat j < length tbl * C \<and> j \<noteq> i \<longrightarrow>
              subscript_bool C t1 j = subscript_bool C tbl j \<and>
              subscript_bool C t2 j = subscript_bool C tbl j \<and>
              subscript_bool C t3 j = subscript_bool C tbl j \<and>
              (\<exists>v. subscript_bool C tbl j = Inr v))"
proof -
  note si = bool_slot_ok[OF assms]
  let ?jj = "unat i div C" and ?x = "(unat i mod C) div 32" and ?y = "(unat i mod C) mod 32"
  let ?w = "tbl ! ?jj ! ?x"
  let ?t1 = "tbl[?jj := (tbl ! ?jj)[?x := ?w OR push_bit ?y 1]]"
  let ?t2 = "tbl[?jj := (tbl ! ?jj)[?x := ?w AND NOT (push_bit ?y 1)]]"
  let ?t3 = "if b then ?t1 else ?t2"
  have y: "?y < 32" by simp
  have s1: "setTrue C i tbl = Inr ?t1"
    using si by (simp add: setTrue_def Let_def)
  have s2: "setFalse C i tbl = Inr ?t2"
    using si by (simp add: setFalse_def Let_def)
  have s3: "setVal_bool C i b tbl = Inr ?t3"
    using si by (simp add: setVal_bool_def Let_def)
  have r1: "subscript_bool C ?t1 i = Inr True"
    by (simp add: subscript_bool_update[OF assms assms(4)] bit_set_mask)
  have r2: "subscript_bool C ?t2 i = Inr False"
    by (simp add: subscript_bool_update[OF assms assms(4)] bit_clear_mask)
  have r3: "subscript_bool C ?t3 i = Inr b"
    using r1 r2 by simp
  have f: "subscript_bool C ?t1 j = subscript_bool C tbl j \<and>
           subscript_bool C ?t2 j = subscript_bool C tbl j \<and>
           subscript_bool C ?t3 j = subscript_bool C tbl j \<and>
           (\<exists>v. subscript_bool C tbl j = Inr v)"
    if j: "unat j < length tbl * C" and ne: "j \<noteq> i" for j
  proof -
    have old: "subscript_bool C tbl j =
        Inr (bit (tbl ! (unat j div C) ! ((unat j mod C) div 32)) ((unat j mod C) mod 32))"
      by (rule subscript_bool_bit[OF assms(1-3) j])
    have f1: "subscript_bool C ?t1 j = subscript_bool C tbl j"
      using bit_position_differs[OF ne]
      by (auto simp: subscript_bool_update[OF assms j] old bit_set_mask)
    have f2: "subscript_bool C ?t2 j = subscript_bool C tbl j"
      using bit_position_differs[OF ne]
      by (auto simp: subscript_bool_update[OF assms j] old bit_clear_mask)
    show ?thesis using f1 f2 old by simp
  qed
  show ?thesis
    using s1 s2 s3 r1 r2 r3 f by blast
qed

theorem set_bit_frame_witness:
  "0 < (64::nat) \<and> (32::nat) dvd 64 \<and> wf_chunks_bool 64 [[5, 0]] \<and>
   unat (33::u32) < length [[5, 0 :: u32]] * 64 \<and>
   (\<exists>t1 t2 t3.
      setTrue 64 33 [[5, 0]] = Inr t1 \<and> setFalse 64 33 [[5, 0]] = Inr t2 \<and>
      setVal_bool 64 33 True [[5, 0]] = Inr t3 \<and>
      subscript_bool 64 t1 33 = Inr True \<and> subscript_bool 64 t2 33 = Inr False \<and>
      subscript_bool 64 t3 33 = Inr True \<and>
      subscript_bool 64 t1 2 = Inr True \<and> subscript_bool 64 t2 2 = Inr True \<and>
      subscript_bool 64 t3 34 = Inr False)"
proof -
  have h: "0 < (64::nat)" "(32::nat) dvd 64" "wf_chunks_bool 64 [[5, 0]]"
    "unat (33::u32) < length [[5, 0 :: u32]] * 64"
    by (simp_all add: wf_chunks_bool_def)
  from set_bit_frame [OF h, of True] obtain t1 t2 t3 where
    a: "setTrue 64 33 [[5, 0]] = Inr t1" "setFalse 64 33 [[5, 0]] = Inr t2"
       "setVal_bool 64 33 True [[5, 0]] = Inr t3"
       "subscript_bool 64 t1 33 = Inr True" "subscript_bool 64 t2 33 = Inr False"
       "subscript_bool 64 t3 33 = Inr True" and
    b: "\<And>j. unat j < length [[5, 0 :: u32]] * 64 \<and> j \<noteq> 33 \<Longrightarrow>
          subscript_bool 64 t1 j = subscript_bool 64 [[5, 0]] j \<and>
          subscript_bool 64 t2 j = subscript_bool 64 [[5, 0]] j \<and>
          subscript_bool 64 t3 j = subscript_bool 64 [[5, 0]] j \<and>
          (\<exists>v. subscript_bool 64 [[5, 0]] j = Inr v)"
    by blast
  have "subscript_bool 64 t1 2 = Inr True" "subscript_bool 64 t2 2 = Inr True"
    using b [of 2] by (simp_all add: subscript_bool_def)
  moreover have "subscript_bool 64 t3 34 = Inr False"
    using b [of 34] by (simp add: subscript_bool_def)
  ultimately show ?thesis using h a by blast
qed

section \<open>Changing the number of chunks\<close>

text \<open>
  Claim C7. After \<open>setNbChunks n\<close> a well-formed column has exactly \<open>n\<close> chunks; the
  elements of the chunks that were added read the default value of the element type,
  and every index that lies in a chunk present before and after reads its previous value.
\<close>

theorem setNbChunks_frame:
  assumes "0 < C" "wf_chunks C tbl"
  shows "length (setNbChunks C T n tbl) = unat n \<and>
         getNbChunks (setNbChunks C T n tbl) = n \<and>
         (\<forall>i. length tbl * C \<le> unat i \<and> unat i < unat n * C \<longrightarrow>
              subscript C (setNbChunks C T n tbl) i = Inr (default_value T)) \<and>
         (\<forall>i. unat i < length tbl * C \<and> unat i < unat n * C \<longrightarrow>
              subscript C (setNbChunks C T n tbl) i = subscript C tbl i \<and>
              (\<exists>v. subscript C tbl i = Inr v))"
proof -
  let ?t = "setNbChunks C T n tbl"
  have len: "length ?t = unat n" by (simp add: setNbChunks_eq)
  have nb: "getNbChunks ?t = n" by (simp add: getNbChunks_def len)
  have wf: "wf_chunks C ?t" by (rule wf_chunks_setNbChunks[OF assms(2)])
  have new: "subscript C ?t i = Inr (default_value T)"
    if "length tbl * C \<le> unat i" "unat i < unat n * C" for i
  proof -
    have r: "unat i < length ?t * C" using that len by simp
    have lo: "length tbl \<le> unat i div C"
      using that(1) assms(1) by (simp add: less_eq_div_iff_mult_less_eq)
    have hi: "unat i div C < unat n" using that(2) assms(1) chunk_index_less by blast
    have "length tbl \<le> unat n" using lo hi by simp
    then have "?t ! (unat i div C) = replicate C (default_value T)"
      using lo hi by (simp add: setNbChunks_eq nth_append)
    then show ?thesis
      using assms(1) by (simp add: subscript_ok[OF assms(1) wf r])
  qed
  have old: "subscript C ?t i = subscript C tbl i \<and> (\<exists>v. subscript C tbl i = Inr v)"
    if "unat i < length tbl * C" "unat i < unat n * C" for i
  proof -
    have r: "unat i < length ?t * C" using that len by simp
    have a: "unat i div C < length tbl" using that(1) assms(1) chunk_index_less by blast
    have b: "unat i div C < unat n" using that(2) assms(1) chunk_index_less by blast
    have "?t ! (unat i div C) = tbl ! (unat i div C)"
      using a b by (simp add: setNbChunks_eq nth_append)
    then show ?thesis
      by (simp add: subscript_ok[OF assms(1) wf r] subscript_ok[OF assms that(1)])
  qed
  show ?thesis using len nb new old by blast
qed

theorem setNbChunks_frame_witness:
  "0 < (2::nat) \<and> wf_chunks 2 [[1, 2], [3, 4 :: u32]] \<and>
   length (setNbChunks 2 u32_type 3 [[1, 2], [3, 4]]) = 3 \<and>
   subscript 2 (setNbChunks 2 u32_type 3 [[1, 2], [3, 4]]) 5 = Inr 0 \<and>
   subscript 2 (setNbChunks 2 u32_type 3 [[1, 2], [3, 4]]) 3 = Inr 4 \<and>
   length (setNbChunks 2 u32_type 1 [[1, 2], [3, 4]]) = 1 \<and>
   subscript 2 (setNbChunks 2 u32_type 1 [[1, 2], [3, 4]]) 1 = Inr 2"
proof -
  have h: "0 < (2::nat)" "wf_chunks 2 [[1, 2], [3, 4 :: u32]]"
    by (simp_all add: wf_chunks_def)
  note g = setNbChunks_frame [OF h, of u32_type 3]
  note s = setNbChunks_frame [OF h, of u32_type 1]
  have "length (setNbChunks 2 u32_type 3 [[1, 2], [3, 4]]) = 3" using g by simp
  moreover have "subscript 2 (setNbChunks 2 u32_type 3 [[1, 2], [3, 4]]) 5 = Inr 0"
    using g [THEN conjunct2, THEN conjunct2, THEN conjunct1, rule_format, of 5]
    by (simp add: u32_type_def)
  moreover have "subscript 2 (setNbChunks 2 u32_type 3 [[1, 2], [3, 4]]) 3 = Inr 4"
    using g [THEN conjunct2, THEN conjunct2, THEN conjunct2, rule_format, of 3]
    by (simp add: subscript_def)
  moreover have "length (setNbChunks 2 u32_type 1 [[1, 2], [3, 4]]) = 1" using s by simp
  moreover have "subscript 2 (setNbChunks 2 u32_type 1 [[1, 2], [3, 4]]) 1 = Inr 2"
    using s [THEN conjunct2, THEN conjunct2, THEN conjunct2, rule_format, of 1]
    by (simp add: subscript_def)
  ultimately show ?thesis using h by blast
qed

section \<open>The format written by \<open>save\<close>\<close>

text \<open>
  Claim C2. The tail that the bit-packed \<open>save\<close> writes after the full chunks is claimed
  to hold \<open>(rounded_nb_lines - (k-1)*C)/8\<close> bytes. The code computes
  \<open>nbl = nbLines - nbca*CHUNKSIZE/8u\<close> and writes \<open>nbl/8u\<close> bytes. With \<open>CHUNKSIZE = 256\<close>,
  two chunks and 260 lines (rounded to 288) it writes the header \<open>{2, 288, 32}\<close>, the
  first chunk, and then all 32 bytes of the last chunk, where the claimed tail has
  \<open>(288 - 256)/8 = 4\<close> bytes. With \<open>CHUNKSIZE = 32\<close>, two chunks and 64 lines it asks
  for 7 bytes of a chunk of 4 bytes.
\<close>

theorem save_bool_tail_bytes:
  "save_bool 256 [[1, 2, 3, 4, 5, 6, 7, 8], [9, 10, 11, 12, 13, 14, 15, 16]] 260 =
     Inr (word_bytes 2 @ word_bytes 288 @ word_bytes 32 @
          chunk_bytes u32_type [1, 2, 3, 4, 5, 6, 7, 8] @
          chunk_bytes u32_type [9, 10, 11, 12, 13, 14, 15, 16]) \<and>
   length (chunk_bytes u32_type [9, 10, 11, 12, 13, 14, 15, 16 :: u32]) = 32 \<and>
   (288 - (2 - 1) * 256) div 8 = (4 :: nat) \<and>
   save_bool 32 [[5], [7]] 64 = Inl Out_of_bounds"
  by (simp add: save_bool_def Let_def save_chunks.simps read_mem_def words_prefix_bytes(3))

section \<open>\<open>save\<close> followed by \<open>load\<close>\<close>

text \<open>
  Claim C3, as amended. The claim is stated for every number of lines; the code needs the
  number of lines to lie in the last chunk. For the generic column (not the bit-packed
  one), an element type of fixed size (every object has \<open>sizeof(T)\<close> bytes, and the bytes
  determine the value), a well-formed column of \<open>k\<close> chunks whose chunk count and chunk
  byte size fit the 32-bit header fields, and a number of lines with
  \<open>(k-1)*CHUNKSIZE \<le> nb_lines \<le> k*CHUNKSIZE\<close>: \<open>save\<close> succeeds, \<open>load\<close> of the written
  bytes into a fresh column returns true and consumes them all, the loaded column has the
  same number of chunks, and every index below the number of saved lines reads the value
  it reads in the saved column.
\<close>

theorem save_load_roundtrip:
  assumes T: "0 < size_of T" "\<forall>x. length (object_bytes T x) = size_of T"
      "\<forall>x. object_value T (object_bytes T x) = x"
    and C: "0 < C" "C * size_of T < 2 ^ 32"
    and wf: "wf_chunks C tbl" "length tbl < 2 ^ 32"
    and nb: "(length tbl - 1) * C \<le> unat nbLines" "unat nbLines \<le> length tbl * C"
  shows "\<exists>bytes tbl'.
           save C T tbl nbLines = Inr bytes \<and>
           load C T [] bytes = Inr (True, tbl', []) \<and>
           getNbChunks tbl' = getNbChunks tbl \<and> length tbl' = length tbl \<and>
           (\<forall>i. unat i < unat nbLines \<longrightarrow>
              (\<exists>v. subscript C tbl i = Inr v \<and> subscript C tbl' i = Inr v))"
proof (cases "tbl = []")
  case True
  let ?hdr = "word_bytes (0 :: u32) @ word_bytes nbLines @ word_bytes (of_nat (C * size_of T)) @ []"
  have z: "unat nbLines = 0" using nb(2) True by simp
  have s: "save C T tbl nbLines = Inr ?hdr"
    using True z by (simp add: save_def Let_def)
  have u2: "unat (of_nat (C * size_of T) :: u32) = C * size_of T"
    using C(2) by (rule unat_of_nat_u32)
  have hl: "\<not> length ?hdr < 12" by (rule header_length)
  have l: "load C T [] ?hdr = Inr (True, [], [])"
    unfolding load_def Let_def header_fields
    using hl u2 by (simp add: setNbChunks_eq)
  show ?thesis using s l True z by simp
next
  case False
  let ?k = "length tbl"
  obtain km where km: "?k = Suc km" using False by (cases tbl) auto
  let ?nl = "unat nbLines - km * C"
  let ?tail = "take ?nl (last tbl)"
  let ?bytes = "word_bytes (of_nat ?k) @ word_bytes nbLines @
                word_bytes (of_nat (C * size_of T)) @
                concat (map (chunk_bytes T) (butlast tbl)) @ chunk_bytes T ?tail"
  let ?last' = "?tail @ replicate (C - length ?tail) (default_value T)"
  let ?tbl' = "butlast tbl @ [?last']"
  have T1: "\<And>x. length (object_bytes T x) = size_of T" using T(2) by simp
  have T3: "\<And>x. object_value T (object_bytes T x) = x" using T(3) by simp
  have lo: "km * C \<le> unat nbLines" using nb(1) km by simp
  have nlC: "?nl \<le> C" using nb(2) km by simp
  have ll: "length (last tbl) = C"
    using wf_chunks_nth [OF wf(1), of km] km False by (simp add: last_conv_nth)
  have lt: "length ?tail = ?nl" using ll nlC by simp
  have s: "save C T tbl nbLines = Inr ?bytes"
    by (rule save_layout [OF T1 C(1) wf(1) km wf(2) lo nb(2)])
  have bl: "\<forall>c \<in> set (butlast tbl). length c = C"
    using wf(1) by (auto simp: wf_chunks_def list_all_iff dest: in_set_butlastD)
  have l: "load C T [] ?bytes = Inr (True, ?tbl', [])"
  proof (rule load_layout [OF T1 T(1) T3 C(2) km wf(2) _ bl])
    show "length (butlast tbl) = km" using km by simp
    show "length ?tail \<le> C" using lt nlC by simp
    show "unat nbLines = km * C + length ?tail" using lt lo by simp
  qed
  have len: "length ?tbl' = ?k" using km by simp
  have nbc: "getNbChunks ?tbl' = getNbChunks tbl" using len by (simp add: getNbChunks_def)
  have wf': "wf_chunks C ?tbl'"
    using bl lt nlC by (simp add: wf_chunks_def list_all_iff)
  have rd: "\<exists>v. subscript C tbl i = Inr v \<and> subscript C ?tbl' i = Inr v"
    if i: "unat i < unat nbLines" for i
  proof -
    have r: "unat i < ?k * C" using i nb(2) by simp
    have r': "unat i < length ?tbl' * C" using r len by simp
    have a: "subscript C tbl i = Inr (tbl ! (unat i div C) ! (unat i mod C))"
      by (rule subscript_ok [OF C(1) wf(1) r])
    have b: "subscript C ?tbl' i = Inr (?tbl' ! (unat i div C) ! (unat i mod C))"
      by (rule subscript_ok [OF C(1) wf' r'])
    have jk: "unat i div C < ?k" using r C(1) chunk_index_less by blast
    have "?tbl' ! (unat i div C) ! (unat i mod C) = tbl ! (unat i div C) ! (unat i mod C)"
    proof (cases "unat i div C < km")
      case True
      then have "?tbl' ! (unat i div C) = tbl ! (unat i div C)"
        using km by (simp add: nth_append nth_butlast)
      then show ?thesis by simp
    next
      case False
      then have e: "unat i div C = km" using jk km by simp
      have "unat i = km * C + unat i mod C"
        using e by (metis div_mult_mod_eq)
      then have m: "unat i mod C < ?nl" using i lo by linarith
      have "?tbl' ! km = ?last'" using km by (simp add: nth_append)
      moreover have "?last' ! (unat i mod C) = last tbl ! (unat i mod C)"
        using m lt by (simp add: nth_append)
      moreover have "last tbl = tbl ! km" using km \<open>tbl \<noteq> []\<close> by (simp add: last_conv_nth)
      ultimately show ?thesis using e by simp
    qed
    then show ?thesis using a b by simp
  qed
  show ?thesis using s l nbc len rd by blast
qed

theorem save_load_roundtrip_witness:
  "0 < size_of u32_type \<and> (\<forall>x. length (object_bytes u32_type x) = size_of u32_type) \<and>
   (\<forall>x. object_value u32_type (object_bytes u32_type x) = x) \<and>
   0 < (4::nat) \<and> 4 * size_of u32_type < 2 ^ 32 \<and>
   wf_chunks 4 [[1, 2, 3, 4], [5, 6, 7, 8 :: u32]] \<and>
   length [[1, 2, 3, 4], [5, 6, 7, 8 :: u32]] < 2 ^ 32 \<and>
   (length [[1, 2, 3, 4], [5, 6, 7, 8 :: u32]] - 1) * 4 \<le> unat (6 :: u32) \<and>
   unat (6 :: u32) \<le> length [[1, 2, 3, 4], [5, 6, 7, 8 :: u32]] * 4 \<and>
   (\<exists>bytes tbl'.
      save 4 u32_type [[1, 2, 3, 4], [5, 6, 7, 8]] 6 = Inr bytes \<and>
      load 4 u32_type [] bytes = Inr (True, tbl', []) \<and> length tbl' = 2 \<and>
      subscript 4 tbl' 0 = Inr 1 \<and> subscript 4 tbl' 3 = Inr 4 \<and>
      subscript 4 tbl' 4 = Inr 5 \<and> subscript 4 tbl' 5 = Inr 6)"
proof -
  let ?tbl = "[[1, 2, 3, 4], [5, 6, 7, 8 :: u32]]"
  have h: "0 < size_of u32_type" "\<forall>x. length (object_bytes u32_type x) = size_of u32_type"
    "\<forall>x. object_value u32_type (object_bytes u32_type x) = x"
    "0 < (4::nat)" "4 * size_of u32_type < 2 ^ 32"
    "wf_chunks 4 ?tbl" "length ?tbl < 2 ^ 32"
    "(length ?tbl - 1) * 4 \<le> unat (6 :: u32)" "unat (6 :: u32) \<le> length ?tbl * 4"
    by (simp_all add: u32_type_fixed wf_chunks_def)
  from save_load_roundtrip [OF h] obtain bytes tbl' where
    a: "save 4 u32_type ?tbl 6 = Inr bytes" "load 4 u32_type [] bytes = Inr (True, tbl', [])"
       "length tbl' = length ?tbl" and
    b: "\<And>i. unat i < unat (6 :: u32) \<Longrightarrow>
          \<exists>v. subscript 4 ?tbl i = Inr v \<and> subscript 4 tbl' i = Inr v"
    by blast
  have "subscript 4 tbl' 0 = Inr 1" "subscript 4 tbl' 3 = Inr 4"
    "subscript 4 tbl' 4 = Inr 5" "subscript 4 tbl' 5 = Inr 6"
    using b [of 0] b [of 3] b [of 4] b [of 5] by (simp_all add: subscript_def)
  then show ?thesis using h a by simp
qed

text \<open>
  Below the last chunk the subtraction \<open>nbLines - nbca*CHUNKSIZE\<close> of \<open>save\<close> wraps around.
  With two chunks of 4 elements and 2 lines the assertion holds (\<open>2/4 \<le> 2\<close>), the tail
  count is \<open>2 - 4 = 0xFFFFFFFE\<close> elements, and the write reads far past the end of the last
  chunk: no byte stream is produced that \<open>load\<close> could restore the column from.
\<close>

theorem save_load_roundtrip_counterexample:
  "unat ((2 :: u32) - (of_nat (length [[1, 2, 3, 4], [5, 6, 7, 8 :: u32]]) - 1) * of_nat 4) =
     4294967294 \<and>
   save 4 u32_type [[1, 2, 3, 4], [5, 6, 7, 8]] 2 = Inl Out_of_bounds \<and>
   \<not> (\<exists>bytes tbl'. save 4 u32_type [[1, 2, 3, 4], [5, 6, 7, 8]] 2 = Inr bytes \<and>
          load 4 u32_type [] bytes = Inr (True, tbl', []))"
  by (simp add: save_def Let_def save_chunks.simps read_mem_def u32_type_fixed
      length_chunk_bytes [of u32_type, OF u32_type_fixed(3)])

text \<open>
  Claim C5. A well-formed bit-packed column of one chunk, of at least 70 lines, in which
  among the first 70 positions exactly 0, 31, 32, 33 and 69 read true: \<open>save\<close> with 70
  lines succeeds, \<open>load\<close> of the written bytes into a fresh column of the same
  \<open>CHUNKSIZE\<close> returns true, and in the loaded column again exactly these positions read
  true among the first 70.
\<close>

theorem save_load_bool_70:
  assumes C: "32 dvd C" "70 \<le> C" "C < 2 ^ 32"
    and col: "wf_chunks_bool C col" "length col = 1"
    and bits: "\<forall>i. unat i < 70 \<longrightarrow> subscript_bool C col i = Inr (i \<in> {0, 31, 32, 33, 69})"
  shows "\<exists>bytes col'.
           save_bool C col 70 = Inr bytes \<and>
           load_bool C [] bytes = Inr (True, col', []) \<and>
           (\<forall>i. unat i < 70 \<longrightarrow> subscript_bool C col' i = Inr (i \<in> {0, 31, 32, 33, 69}))"
proof -
  obtain c where c: "col = [c]" using col(2) by (cases col) auto
  obtain q where q: "C = 32 * q" using C(1) by (auto elim: dvdE)
  have "3 \<le> q" using C(2) q by simp
  then have C96: "96 \<le> C" using q by simp
  have Cpos: "0 < C" using C96 by simp
  have lc: "length c = C div 32" using col(1) c by (simp add: wf_chunks_bool_def)
  have l3: "3 \<le> length c" using lc C96 by simp
  let ?bytes = "word_bytes 1 @ word_bytes 96 @ word_bytes (of_nat C div 8) @
                chunk_bytes u32_type (take 3 c)"
  let ?col' = "[take 3 c @ replicate (C div 32 - 3) 0]"
  have s: "save_bool C col 70 = Inr ?bytes"
    unfolding c by (rule save_bool_one_chunk_70 [OF C96 C(3) l3])
  have l: "load_bool C [] ?bytes = Inr (True, ?col', [])"
    using load_bool_one_chunk_70 [OF C96 C(3), of "take 3 c"] l3 by simp
  have wf': "wf_chunks_bool C ?col'"
    using l3 lc by (simp add: wf_chunks_bool_def)
  have rd: "subscript_bool C ?col' i = Inr (i \<in> {0, 31, 32, 33, 69})" if i: "unat i < 70" for i
  proof -
    have r: "unat i < length col * C" "unat i < length ?col' * C"
      using i C96 col(2) by simp_all
    have d: "unat i div C = 0" "unat i mod C = unat i" using i C96 by simp_all
    have x: "unat i div 32 < 3" using i by simp
    have a: "subscript_bool C col i = Inr (bit (col ! 0 ! (unat i div 32)) (unat i mod 32))"
      using subscript_bool_bit [OF Cpos C(1) col(1) r(1)] d by simp
    have b: "subscript_bool C ?col' i = Inr (bit (?col' ! 0 ! (unat i div 32)) (unat i mod 32))"
      using subscript_bool_bit [OF Cpos C(1) wf' r(2)] d by simp
    have "?col' ! 0 ! (unat i div 32) = col ! 0 ! (unat i div 32)"
      using x l3 c by (simp add: nth_append)
    then have "subscript_bool C ?col' i = subscript_bool C col i"
      using a b by simp
    then show ?thesis using bits i by simp
  qed
  show ?thesis using s l rd by blast
qed

theorem save_load_bool_70_witness:
  "(32::nat) dvd 128 \<and> (70::nat) \<le> 128 \<and> (128::nat) < 2 ^ 32 \<and>
   wf_chunks_bool 128 [[0x80000001, 3, 0x20, 0]] \<and> length [[0x80000001, 3, 0x20, 0 :: u32]] = 1 \<and>
   (\<exists>bytes col'.
      save_bool 128 [[0x80000001, 3, 0x20, 0]] 70 = Inr bytes \<and>
      load_bool 128 [] bytes = Inr (True, col', []) \<and>
      subscript_bool 128 col' 0 = Inr True \<and> subscript_bool 128 col' 1 = Inr False \<and>
      subscript_bool 128 col' 31 = Inr True \<and> subscript_bool 128 col' 32 = Inr True \<and>
      subscript_bool 128 col' 33 = Inr True \<and> subscript_bool 128 col' 34 = Inr False \<and>
      subscript_bool 128 col' 69 = Inr True)"
proof -
  let ?col = "[[0x80000001, 3, 0x20, 0 :: u32]]"
  have h: "(32::nat) dvd 128" "(70::nat) \<le> 128" "(128::nat) < 2 ^ 32"
    "wf_chunks_bool 128 ?col" "length ?col = 1"
    by (simp_all add: wf_chunks_bool_def)
  have all: "list_all (\<lambda>n. subscript_bool 128 ?col (of_nat n) =
                Inr ((of_nat n :: u32) \<in> {0, 31, 32, 33, 69})) [0..<70]"
    by (simp add: upt_rec subscript_bool_def)
  have bits: "\<forall>i. unat i < 70 \<longrightarrow> subscript_bool 128 ?col i = Inr (i \<in> {0, 31, 32, 33, 69})"
  proof (intro allI impI)
    fix i :: u32
    assume "unat i < 70"
    then have "unat i \<in> set [0..<70]" by simp
    then have "subscript_bool 128 ?col (of_nat (unat i)) =
                Inr ((of_nat (unat i) :: u32) \<in> {0, 31, 32, 33, 69})"
      using all unfolding list_all_iff by blast
    then show "subscript_bool 128 ?col i = Inr (i \<in> {0, 31, 32, 33, 69})" by simp
  qed
  from save_load_bool_70 [OF h bits] obtain bytes col' where
    a: "save_bool 128 ?col 70 = Inr bytes" "load_bool 128 [] bytes = Inr (True, col', [])" and
    b: "\<And>i. unat i < 70 \<Longrightarrow> subscript_bool 128 col' i = Inr (i \<in> {0, 31, 32, 33, 69})"
    by blast
  have "subscript_bool 128 col' 0 = Inr True" "subscript_bool 128 col' 1 = Inr False"
    "subscript_bool 128 col' 31 = Inr True" "subscript_bool 128 col' 32 = Inr True"
    "subscript_bool 128 col' 33 = Inr True" "subscript_bool 128 col' 34 = Inr False"
    "subscript_bool 128 col' 69 = Inr True"
    using b [of 0] b [of 1] b [of 31] b [of 32] b [of 33] b [of 34] b [of 69] by simp_all
  then show ?thesis using h a by blast
qed

section \<open>\<open>load\<close> of a stream with another chunk byte size\<close>

text \<open>
  Claim C4. When the third header word of the stream differs from \<open>CHUNKSIZE*sizeof(T)\<close>
  (from \<open>CHUNKSIZE/8\<close> for the bit-packed column), \<open>load\<close> returns false and the column
  is the one it was before the call.
\<close>

theorem load_rejects_chunk_byte_size:
  "(unat cbs \<noteq> C * size_of T \<longrightarrow>
      load C T tableData (word_bytes nbc @ word_bytes nbl @ word_bytes cbs @ payload) =
        Inr (False, tableData, payload)) \<and>
   (cbs \<noteq> of_nat C div 8 \<longrightarrow>
      load_bool C bits (word_bytes nbc @ word_bytes nbl @ word_bytes cbs @ payload) =
        Inr (False, bits, payload))"
  unfolding load_def load_bool_def Let_def header_fields
  using header_length [of nbc nbl cbs payload] by auto

theorem load_rejects_chunk_byte_size_witness:
  "unat (64 :: u32) \<noteq> 32 * size_of u32_type \<and>
   load 32 u32_type [[7]] (word_bytes 1 @ word_bytes 3 @ word_bytes 64 @ [1, 2, 3]) =
     Inr (False, [[7]], [1, 2, 3]) \<and>
   (4 :: u32) \<noteq> of_nat 64 div 8 \<and>
   load_bool 64 [[5, 6]] (word_bytes 1 @ word_bytes 64 @ word_bytes 4 @ [1, 2, 3]) =
     Inr (False, [[5, 6]], [1, 2, 3])"
proof -
  have a: "unat (64 :: u32) \<noteq> 32 * size_of u32_type" by (simp add: u32_type_def)
  have b: "(4 :: u32) \<noteq> of_nat 64 div 8" by simp
  note g = load_rejects_chunk_byte_size
    [where cbs = 64 and C = 32 and T = u32_type, THEN conjunct1, rule_format, OF a]
  note h = load_rejects_chunk_byte_size
    [where cbs = 4 and C = 64, THEN conjunct2, rule_format, OF b]
  show ?thesis using a b g h by blast
qed

section \<open>The count record of the binary OFF file\<close>

text \<open>
  Claim C8. For every map whose file could be opened, \<open>export_off_bin\<close> returns true and
  the file starts with the line \<open>OFF BINARY\<close> followed by three words: the number of
  vertices, the number of vertices again (whatever the number of faces is), and 0.
\<close>

theorem export_off_bin_count_record:
  "\<exists>rest. export_off_bin swap position m True =
     (True, ascii_bytes ''OFF BINARY'' @ [10] @
            word_bytes (swap (nb_cells_vertex m)) @ word_bytes (swap (nb_cells_vertex m)) @
            word_bytes 0 @ rest)"
proof -
  obtain ids count buffer_pos where
    fp: "first_pass swap position (face_vertices m) = (ids, count, buffer_pos)"
    by (cases "first_pass swap position (face_vertices m)") auto
  let ?hdr = "ascii_bytes ''OFF BINARY'' @ [10] @
            word_bytes (swap (nb_cells_vertex m)) @ word_bytes (swap (nb_cells_vertex m)) @
            word_bytes 0"
  obtain r where "foldl (second_pass_face swap ids) (?hdr @ buffer_pos) (face_vertices m) =
      (?hdr @ buffer_pos) @ r"
    using second_pass_prefix by blast
  then have "export_off_bin swap position m True = (True, ?hdr @ buffer_pos @ r)"
    by (simp add: export_off_bin_def fp Let_def)
  then show ?thesis by simp
qed

section \<open>The tetgen importer\<close>

text \<open>
  Claim C9. When the tetgen structure has no point or no tetrahedron, \<open>import_file_impl\<close>
  returns false, and the last thing it does is to call \<open>clear\<close>; no line is inserted and
  no tetrahedron added. Otherwise, for a well-formed structure, it returns true, having
  called \<open>insert_lines\<close> exactly \<open>numberofpoints\<close> times and \<open>add_tetra\<close> exactly
  \<open>numberoftetrahedra\<close> times, and never \<open>clear\<close>.
\<close>

theorem import_file_impl_result:
  "(numberofpoints volume = 0 \<or> numberoftetrahedra volume = 0 \<longrightarrow>
      (\<exists>effects. import_file_impl Scalar line_id volume = Inr (False, effects @ [Clear]) \<and>
         filter is_Insert_lines effects = [] \<and> filter is_Add_tetra effects = [])) \<and>
   (wf_tetgenio volume \<and> numberofpoints volume \<noteq> 0 \<and> numberoftetrahedra volume \<noteq> 0 \<longrightarrow>
      (\<exists>effects. import_file_impl Scalar line_id volume = Inr (True, effects) \<and>
         length (filter is_Insert_lines effects) = nat (numberofpoints volume) \<and>
         length (filter is_Add_tetra effects) = nat (numberoftetrahedra volume) \<and>
         Clear \<notin> set effects))"
proof -
  let ?np = "numberofpoints volume" and ?nt = "numberoftetrahedra volume"
  let ?nv = "of_int ?np :: u32" and ?nw = "of_int ?nt :: u32"
  let ?e0 = "[Set_nb_vertices ?nv, Set_nb_volumes ?nw, Reserve_volumes_types ?nw,
              Reserve_volumes_vertex_indices (4 * ?nw)]"
  have empty: "\<exists>effects. import_file_impl Scalar line_id volume = Inr (False, effects @ [Clear]) \<and>
              filter is_Insert_lines effects = [] \<and> filter is_Add_tetra effects = []"
    if "?np = 0 \<or> ?nt = 0"
  proof -
    have "?nv = 0 \<or> ?nw = 0" using that by auto
    then have "import_file_impl Scalar line_id volume = Inr (False, ?e0 @ [Clear])"
      by (auto simp: import_file_impl_def Let_def)
    moreover have "filter is_Insert_lines ?e0 = []" "filter is_Add_tetra ?e0 = []" by simp_all
    ultimately show ?thesis by blast
  qed
  have full: "\<exists>effects. import_file_impl Scalar line_id volume = Inr (True, effects) \<and>
              length (filter is_Insert_lines effects) = nat ?np \<and>
              length (filter is_Add_tetra effects) = nat ?nt \<and> Clear \<notin> set effects"
    if wf: "wf_tetgenio volume" and nz: "?np \<noteq> 0" "?nt \<noteq> 0"
  proof -
    from wf have
      np: "0 \<le> ?np" "?np < 2 ^ 31" and nt: "0 \<le> ?nt" "?nt < 2 ^ 31" and
      lp: "length (pointlist volume) = 3 * nat ?np" and
      lt: "length (tetrahedronlist volume) = 4 * nat ?nt" and
      all: "list_all (\<lambda>t. firstnumber volume \<le> t \<and> t < firstnumber volume + ?np)
              (tetrahedronlist volume)"
      by (simp_all add: wf_tetgenio_def)
    have un: "unat ?nv = nat ?np" "unat ?nw = nat ?nt"
      using np nt by (simp_all add: unat_of_int_small)
    have z: "?nv \<noteq> 0" "?nw \<noteq> 0"
      using np nt nz by (simp_all add: of_int_zero_iff)
    let ?e1 = "?e0 @ [Add_attribute ''position'']"
    obtain es vs where
      cv: "create_vertices Scalar line_id (pointlist volume) 0 (nat ?np) ?e1 [] =
             Inr (?e1 @ es, [] @ vs)" and
      fv: "length vs = nat ?np - 0" "length (filter is_Insert_lines es) = nat ?np - 0"
          "filter is_Add_tetra es = []" "Clear \<notin> set es"
      using create_vertices_run [of 0 "nat ?np" "pointlist volume" Scalar line_id ?e1 "[]"] lp
      by auto
    have lv: "length vs < 2 ^ 31" using fv(1) np by (simp add: nat_less_iff)
    have all': "list_all (\<lambda>x. firstnumber volume \<le> x \<and> x < firstnumber volume + int (length vs))
            (tetrahedronlist volume)"
      using all fv(1) np by simp
    obtain es' where
      ct: "create_tetras (firstnumber volume) vs (tetrahedronlist volume) 0 (nat ?nt)
             (?e1 @ es) = Inr ((?e1 @ es) @ es')" and
      ft: "length (filter is_Add_tetra es') = nat ?nt - 0" "filter is_Insert_lines es' = []"
          "Clear \<notin> set es'"
      using create_tetras_run [of 0 "nat ?nt" "tetrahedronlist volume" vs "firstnumber volume"
          "?e1 @ es"] lt lv all'
      by auto
    have "import_file_impl Scalar line_id volume = Inr (True, (?e1 @ es) @ es')"
      using z cv ct un by (simp add: import_file_impl_def Let_def)
    moreover have "length (filter is_Insert_lines ((?e1 @ es) @ es')) = nat ?np"
      "length (filter is_Add_tetra ((?e1 @ es) @ es')) = nat ?nt"
      "Clear \<notin> set ((?e1 @ es) @ es')"
      using fv ft by simp_all
    ultimately show ?thesis by blast
  qed
  show ?thesis using empty full by blast
qed

theorem import_file_impl_result_witness:
  "wf_tetgenio \<lparr>firstnumber = 1, numberofpoints = 4,
       pointlist = [0, 0, 0, 1, 0, 0, 0, 1, 0, 0, 0, 1 :: int],
       numberoftetrahedra = 1, tetrahedronlist = [1, 2, 3, 4]\<rparr> \<and>
   (\<exists>effects.
      import_file_impl (\<lambda>x. x) of_nat \<lparr>firstnumber = 1, numberofpoints = 4,
          pointlist = [0, 0, 0, 1, 0, 0, 0, 1, 0, 0, 0, 1 :: int],
          numberoftetrahedra = 1, tetrahedronlist = [1, 2, 3, 4]\<rparr> = Inr (True, effects) \<and>
      length (filter is_Insert_lines effects) = 4 \<and>
      length (filter is_Add_tetra effects) = 1 \<and> Clear \<notin> set effects) \<and>
   (\<exists>effects.
      import_file_impl (\<lambda>x. x) of_nat \<lparr>firstnumber = 0, numberofpoints = 0, pointlist = ([] :: int list),
          numberoftetrahedra = 1, tetrahedronlist = [0, 0, 0, 0]\<rparr> =
        Inr (False, effects @ [Clear]) \<and>
      filter is_Insert_lines effects = [] \<and> filter is_Add_tetra effects = [])"
proof -
  let ?v = "\<lparr>firstnumber = 1, numberofpoints = 4,
       pointlist = [0, 0, 0, 1, 0, 0, 0, 1, 0, 0, 0, 1 :: int],
       numberoftetrahedra = 1, tetrahedronlist = [1, 2, 3, 4]\<rparr>"
  let ?w = "\<lparr>firstnumber = 0, numberofpoints = 0, pointlist = ([] :: int list),
       numberoftetrahedra = 1, tetrahedronlist = [0, 0, 0, 0]\<rparr>"
  have v: "wf_tetgenio ?v" by (simp add: wf_tetgenio_def)
  have "\<exists>effects. import_file_impl (\<lambda>x. x) of_nat ?v = Inr (True, effects) \<and>
      length (filter is_Insert_lines effects) = 4 \<and>
      length (filter is_Add_tetra effects) = 1 \<and> Clear \<notin> set effects"
    using import_file_impl_result [where volume = ?v and line_id = of_nat and Scalar = "\<lambda>x. x"] v by simp
  moreover have "\<exists>effects. import_file_impl (\<lambda>x. x) of_nat ?w = Inr (False, effects @ [Clear]) \<and>
      filter is_Insert_lines effects = [] \<and> filter is_Add_tetra effects = []"
    using import_file_impl_result [where volume = ?w and line_id = of_nat and Scalar = "\<lambda>x. x"] by simp
  ultimately show ?thesis using v by blast
qed

end
